theory Spec2Isabelle
  imports Complex_Main "HOL-Library.Word" "HOL-Library.Multiset" "HOL-Library.AList"
begin

unbundle bit_operations_syntax

section \<open>Numbers and strings of the source language\<close>

text \<open>
  The source is TypeScript. Its 32-bit integer operations (\<^verbatim>\<open>>>> 0\<close>, \<^verbatim>\<open>Math.imul\<close>,
  \<^verbatim>\<open>^\<close>) are modelled on \<^typ>\<open>32 word\<close>; its other numbers are modelled as exact
  rationals (every finite double is a rational; rounding is not modelled, and the
  concrete inputs used below are dyadic rationals on which double arithmetic is exact).
  Strings are lists of code units, restricted to the code units below 256.
\<close>

type_synonym u32 = "32 word"
type_synonym u8 = "8 word"
type_synonym number = rat

text \<open>\<^verbatim>\<open>n >>> 0\<close> on an integer-valued number.\<close>

definition ToUint32 :: "int \<Rightarrow> u32" where
  "ToUint32 n = word_of_int n"

text \<open>\<^verbatim>\<open>n | 0\<close> on a finite number: truncate, then wrap to a signed 32-bit value.\<close>

definition trunc :: "number \<Rightarrow> int" where
  "trunc q = (if 0 \<le> q then \<lfloor>q\<rfloor> else - \<lfloor>- q\<rfloor>)"

definition ToInt32 :: "number \<Rightarrow> int" where
  "ToInt32 q = sint (word_of_int (trunc q) :: u32)"

section \<open>Decimal rendering and parsing of integers\<close>

text \<open>
  The conversion of an integer-valued number to a string, as a template literal does it
  (for magnitudes below \<open>10^21\<close>, where the language switches to exponent notation):
  an optional minus sign and the decimal digits.
\<close>

definition digit_char :: "nat \<Rightarrow> char" where
  "digit_char d = char_of (48 + d)"

fun digits :: "nat \<Rightarrow> string" where
  "digits n = (if n < 10 then [digit_char n] else digits (n div 10) @ [digit_char (n mod 10)])"

definition show_int :: "int \<Rightarrow> string" where
  "show_int n = (if n < 0 then CHR ''-'' # digits (nat (- n)) else digits (nat n))"

text \<open>
  \<^verbatim>\<open>parseInt(s, 10)\<close>: leading white space is skipped, a sign is read, then digits up
  to the first character that is not one; \<open>None\<close> stands for \<^verbatim>\<open>NaN\<close>.
\<close>

definition is_digit :: "char \<Rightarrow> bool" where
  "is_digit c = (48 \<le> (of_char c :: nat) \<and> (of_char c :: nat) \<le> 57)"

definition is_space :: "char \<Rightarrow> bool" where
  "is_space c = ((of_char c :: nat) \<in> {9, 10, 11, 12, 13, 32, 160})"

fun parse_digits :: "nat \<Rightarrow> string \<Rightarrow> nat" where
  "parse_digits acc [] = acc"
| "parse_digits acc (c # cs) =
     (if is_digit c then parse_digits (acc * 10 + (of_char c - 48)) cs else acc)"

definition parseInt :: "string \<Rightarrow> int option" where
  "parseInt s =
     (let s = dropWhile is_space s;
          (neg, s) = (case s of
                        [] \<Rightarrow> (False, s)
                      | c # cs \<Rightarrow> if c = CHR ''-'' then (True, cs)
                                 else if c = CHR ''+'' then (False, cs) else (False, s))
      in case s of
           [] \<Rightarrow> None
         | c # cs \<Rightarrow> if is_digit c
                    then Some ((if neg then - 1 else 1) * int (parse_digits 0 s))
                    else None)"

text \<open>\<^verbatim>\<open>s.split(c)\<close> for a one-character separator.\<close>

fun splitOn :: "char \<Rightarrow> string \<Rightarrow> string list" where
  "splitOn c [] = [] # []"
| "splitOn c (x # xs) =
     (if x = c then [] # splitOn c xs
      else (case splitOn c xs of [] \<Rightarrow> [x] # [] | r # rs \<Rightarrow> (x # r) # rs))"

section \<open>SeedMixer (route.ts)\<close>

text \<open>\<^verbatim>\<open>hash32\<close>: FNV-1a over the code units of the string.\<close>

fun hash32_loop :: "u32 \<Rightarrow> string \<Rightarrow> u32" where
  "hash32_loop h [] = h"
| "hash32_loop h (c # cs) = hash32_loop ((h XOR of_char c) * 16777619) cs"

definition hash32 :: "string \<Rightarrow> u32" where
  "hash32 str = hash32_loop 2166136261 str"

text \<open>The body of the loop of \<^verbatim>\<open>mix\<close>: the finalizer applied to one input.\<close>

definition mix_step :: "int \<Rightarrow> u32" where
  "mix_step n =
     (let x = ToUint32 n;
          x = (x XOR drop_bit 16 x) * 0x7feb352d;
          x = (x XOR drop_bit 15 x) * 0x846ca68b;
          x = x XOR drop_bit 16 x
      in x)"

fun mix_loop :: "u32 \<Rightarrow> int list \<Rightarrow> u32" where
  "mix_loop h [] = h"
| "mix_loop h (n # ns) = mix_loop (h XOR mix_step n) ns"

definition mix :: "int list \<Rightarrow> u32" where
  "mix nums = mix_loop 0x811c9dc5 nums"

text \<open>\<^verbatim>\<open>toUnitFloat\<close>: the low 27 bits divided by \<open>2^27\<close>.\<close>

definition toUnitFloat :: "u32 \<Rightarrow> number" where
  "toUnitFloat u = of_nat (unat (u AND 0x7ffffff)) / 0x8000000"


section \<open>Typed arrays\<close>

text \<open>
  A \<^verbatim>\<open>Uint8Array\<close> is a list of bytes. Reading outside the array yields
  \<^verbatim>\<open>undefined\<close> (\<open>None\<close>); writing outside it is ignored; a stored number is
  reduced modulo 256 and a stored \<^verbatim>\<open>undefined\<close> becomes 0.
\<close>

definition rd :: "u8 list \<Rightarrow> int \<Rightarrow> u8 option" where
  "rd a i = (if 0 \<le> i \<and> i < int (length a) then Some (a ! nat i) else None)"

definition wr :: "u8 list \<Rightarrow> int \<Rightarrow> u8 \<Rightarrow> u8 list" where
  "wr a i v = (if 0 \<le> i \<and> i < int (length a) then a[nat i := v] else a)"

text \<open>Reading by position without measuring the list, for evaluation.\<close>

fun nth_opt :: "'a list \<Rightarrow> nat \<Rightarrow> 'a option" where
  "nth_opt [] n = None"
| "nth_opt (x # xs) 0 = Some x"
| "nth_opt (x # xs) (Suc n) = nth_opt xs n"

definition u8_of :: "int \<Rightarrow> u8" where
  "u8_of n = word_of_int n"

definition u8_of_undefined :: "u8 option \<Rightarrow> u8" where
  "u8_of_undefined v = (case v of None \<Rightarrow> 0 | Some b \<Rightarrow> b)"

text \<open>\<^verbatim>\<open>v === n\<close> for an array element \<open>v\<close> and a number \<open>n\<close>.\<close>

definition same_num :: "u8 option \<Rightarrow> int \<Rightarrow> bool" where
  "same_num v n = (case v of None \<Rightarrow> False | Some b \<Rightarrow> uint b = n)"

section \<open>Block types (block\_types.ts)\<close>

datatype Block = Air | Grass | Dirt | Stone | RedFlower | OrangeFlower | PinkFlower
  | WhiteFlower | Gizmos

fun Block_id :: "Block \<Rightarrow> int" where
  "Block_id Air = 0"
| "Block_id Grass = 1"
| "Block_id Dirt = 2"
| "Block_id Stone = 3"
| "Block_id RedFlower = 4"
| "Block_id OrangeFlower = 5"
| "Block_id PinkFlower = 6"
| "Block_id WhiteFlower = 7"
| "Block_id Gizmos = 8"

section \<open>The random source\<close>

text \<open>
  \<^verbatim>\<open>Math.random()\<close> is the only ambient mutable state within reach of the generators.
  It is modelled as a stream of numbers; a draw returns the head and the rest.
\<close>

type_synonym rng = "nat \<Rightarrow> number"

definition Math_random :: "rng \<Rightarrow> number \<times> rng" where
  "Math_random r = (r 0, \<lambda>n. r (Suc n))"

section \<open>NoiseField (perlin.ts)\<close>

text \<open>The destructuring swap \<^verbatim>\<open>[p[i], p[j]] = [p[j], p[i]]\<close>.\<close>

definition swap :: "u8 list \<Rightarrow> int \<Rightarrow> int \<Rightarrow> u8 list" where
  "swap p i j =
     (let a = rd p j; b = rd p i;
          p = wr p i (u8_of_undefined a);
          p = wr p j (u8_of_undefined b)
      in p)"

text \<open>The shuffle loop, \<open>i\<close> running from 255 down to 1.\<close>

fun shuffle :: "number \<Rightarrow> nat \<Rightarrow> u8 list \<Rightarrow> u8 list" where
  "shuffle seed 0 p = p"
| "shuffle seed (Suc n) p =
     shuffle seed n (swap p (int (Suc n)) \<lfloor>seed * (of_nat (Suc n) + 1)\<rfloor>)"

text \<open>The permutation table captured by the closure that \<^verbatim>\<open>makeNoise\<close> returns.\<close>

definition permTable :: "number \<Rightarrow> u8 list" where
  "permTable seed =
     (let p = replicate 512 0;
          p = fold (\<lambda>i p. wr p (int i) (u8_of (int i))) [0..<256] p;
          p = shuffle seed 255 p;
          p = fold (\<lambda>i p. wr p (int i + 256) (u8_of_undefined (rd p (int i)))) [0..<256] p
      in p)"

text \<open>
  \<^verbatim>\<open>makeNoise(seed = Math.random())\<close>: the default argument draws from the random
  source only when no seed is passed.
\<close>

definition makeNoise :: "number option \<Rightarrow> rng \<Rightarrow> u8 list \<times> rng" where
  "makeNoise seed r =
     (case seed of
        Some s \<Rightarrow> (permTable s, r)
      | None \<Rightarrow> (let (s, r') = Math_random r in (permTable s, r')))"

definition fade :: "number \<Rightarrow> number" where
  "fade t = t * t * t * (t * (t * 6 - 15) + 10)"

definition lerp :: "number \<Rightarrow> number \<Rightarrow> number \<Rightarrow> number" where
  "lerp a b t = a + t * (b - a)"

definition grad :: "int \<Rightarrow> number \<Rightarrow> number \<Rightarrow> number \<Rightarrow> number" where
  "grad hash x y z =
     (let h = hash AND 15;
          u = (if h < 8 then x else y);
          v = (if h < 4 then y else if h = 12 \<or> h = 14 then x else z)
      in (if h AND 1 = 0 then u else - u) + (if h AND 2 = 0 then v else - v))"

text \<open>
  A table lookup \<^verbatim>\<open>p[i]\<close> inside \<^verbatim>\<open>noise\<close>. Every index used there is the sum of
  a table entry, a cell coordinate and possibly 1, each of the first two at most 255
  (lemmas \<open>tbl_bounds\<close> and \<open>cell_bounds\<close> below), so the read is always inside a
  table of 512 entries (lemma \<open>length_permTable\<close>).
\<close>

definition tbl :: "u8 list \<Rightarrow> int \<Rightarrow> int" where
  "tbl p i = uint (p ! nat i)"

text \<open>The closure \<^verbatim>\<open>noise(x, y, z = 0)\<close> over the table \<open>p\<close>.\<close>

definition noise :: "u8 list \<Rightarrow> number \<Rightarrow> number \<Rightarrow> number \<Rightarrow> number" where
  "noise p x0 y0 z0 =
     (let X = \<lfloor>x0\<rfloor> AND 255; Y = \<lfloor>y0\<rfloor> AND 255; Z = \<lfloor>z0\<rfloor> AND 255;
          x = x0 - of_int \<lfloor>x0\<rfloor>; y = y0 - of_int \<lfloor>y0\<rfloor>; z = z0 - of_int \<lfloor>z0\<rfloor>;
          u = fade x; v = fade y; w = fade z;
          A = tbl p X + Y; AA = tbl p A + Z; AB = tbl p (A + 1) + Z;
          B = tbl p (X + 1) + Y; BA = tbl p B + Z; BB = tbl p (B + 1) + Z
      in lerp
           (lerp
              (lerp (grad (tbl p AA) x y z) (grad (tbl p BA) (x - 1) y z) u)
              (lerp (grad (tbl p AB) x (y - 1) z) (grad (tbl p BB) (x - 1) (y - 1) z) u)
              v)
           (lerp
              (lerp (grad (tbl p (AA + 1)) x y (z - 1)) (grad (tbl p (BA + 1)) (x - 1) y (z - 1)) u)
              (lerp (grad (tbl p (AB + 1)) x (y - 1) (z - 1))
                    (grad (tbl p (BB + 1)) (x - 1) (y - 1) (z - 1)) u)
              v)
           w * (1 / 2) + 1 / 2)"

section \<open>ChunkGenerator (route.ts)\<close>

text \<open>
  The generation parameters. \<open>size_p\<close> is a natural number (the request parser clamps
  it to \<open>4..128\<close>); \<open>base_p\<close> and the chunk coordinates are 32-bit integers.
\<close>

record Params =
  size_p :: nat
  seed_p :: string
  base_p :: int
  cx_p :: int
  cy_p :: int
  cz_p :: int
  surfaceScale_p :: number
  cavesScale_p :: number
  cavesThreshold_p :: number
  grassDepth_p :: number
  dirtDepth_p :: number

definition IDX :: "int \<Rightarrow> int \<Rightarrow> int \<Rightarrow> int \<Rightarrow> int" where
  "IDX S x y z = x + y * S + z * S * S"

text \<open>The nested loops \<^verbatim>\<open>for x < S: for z < S\<close> over the columns of a chunk.\<close>

definition forXZ :: "nat \<Rightarrow> (int \<Rightarrow> int \<Rightarrow> u8 list \<Rightarrow> u8 list) \<Rightarrow> u8 list \<Rightarrow> u8 list" where
  "forXZ S f grid = fold (\<lambda>x g. fold (\<lambda>z g. f (int x) (int z) g) [0..<S] g) [0..<S] grid"

text \<open>Phase 1, inner loop: \<^verbatim>\<open>for (y = S - 1; y > maxY; y--) grid[IDX(x, y, z)] = Air\<close>.\<close>

function carveAbove :: "int \<Rightarrow> int \<Rightarrow> int \<Rightarrow> int \<Rightarrow> int \<Rightarrow> u8 list \<Rightarrow> u8 list" where
  "carveAbove S x z maxY y grid =
     (if y > maxY
      then carveAbove S x z maxY (y - 1) (wr grid (IDX S x y z) (u8_of (Block_id Air)))
      else grid)"
  by pat_completeness auto
termination
  by (relation "measure (\<lambda>(S, x, z, maxY, y, grid). nat (y - maxY))") auto

definition surfacePhase ::
  "nat \<Rightarrow> int \<Rightarrow> int \<Rightarrow> number \<Rightarrow> u8 list \<Rightarrow> u8 list \<Rightarrow> u8 list" where
  "surfacePhase S ox oz scale surfaceNoise grid =
     forXZ S (\<lambda>x z g.
        let h = noise surfaceNoise ((of_int x + of_int ox) * scale)
                  ((of_int z + of_int oz) * scale) 0;
            maxY = \<lfloor>h * of_nat S\<rfloor>
        in carveAbove (int S) x z maxY (int S - 1) g) grid"

text \<open>Phase 2: the cave loops over \<open>x\<close>, \<open>y\<close>, \<open>z\<close>.\<close>

definition caveVoxel ::
  "nat \<Rightarrow> int \<Rightarrow> int \<Rightarrow> int \<Rightarrow> number \<Rightarrow> number \<Rightarrow> u8 list \<Rightarrow> int \<Rightarrow> int \<Rightarrow> int
   \<Rightarrow> u8 list \<Rightarrow> u8 list" where
  "caveVoxel S ox oy oz scale threshold cavesNoise x y z grid =
     (let n = noise cavesNoise ((of_int x + of_int ox) * scale)
                ((of_int y + of_int oy) * scale) ((of_int z + of_int oz) * scale)
      in if n > threshold then wr grid (IDX (int S) x y z) (u8_of (Block_id Air)) else grid)"

definition cavesPhase ::
  "nat \<Rightarrow> int \<Rightarrow> int \<Rightarrow> int \<Rightarrow> number \<Rightarrow> number \<Rightarrow> u8 list \<Rightarrow> u8 list \<Rightarrow> u8 list" where
  "cavesPhase S ox oy oz scale threshold cavesNoise grid =
     fold (\<lambda>x g. fold (\<lambda>y g. fold (\<lambda>z g.
        caveVoxel S ox oy oz scale threshold cavesNoise (int x) (int y) (int z) g)
        [0..<S] g) [0..<S] g) [0..<S] grid"

text \<open>Phase 3. The scan for the highest non-Air voxel of a column.\<close>

function findTop :: "int \<Rightarrow> u8 list \<Rightarrow> int \<Rightarrow> int \<Rightarrow> int \<Rightarrow> int" where
  "findTop S grid x z y =
     (if y \<ge> 0 \<and> same_num (rd grid (IDX S x y z)) (Block_id Air)
      then findTop S grid x z (y - 1) else y)"
  by pat_completeness auto
termination
  by (relation "measure (\<lambda>(S, grid, x, z, y). nat (y + 1))") auto

function contiguousLoop ::
  "int \<Rightarrow> int \<Rightarrow> int \<Rightarrow> int \<Rightarrow> int \<Rightarrow> int \<Rightarrow> int \<Rightarrow> int \<Rightarrow> u8 list \<Rightarrow> u8 list" where
  "contiguousLoop S from to depth x z y replaced grid =
     (if y \<ge> 0 \<and> replaced < depth then
        (let i = IDX S x y z; b = rd grid i in
         if same_num b (Block_id Air) then grid
         else if \<not> same_num b from then grid
         else contiguousLoop S from to depth x z (y - 1) (replaced + 1)
                (wr grid i (u8_of (to AND 0xff))))
      else grid)"
  by pat_completeness auto
termination
  by (relation "measure (\<lambda>(S, from, to, depth, x, z, y, replaced, grid). nat (y + 1))") auto

definition replaceTopContiguous :: "nat \<Rightarrow> int \<Rightarrow> int \<Rightarrow> int \<Rightarrow> u8 list \<Rightarrow> u8 list" where
  "replaceTopContiguous S from to depth grid =
     forXZ S (\<lambda>x z g.
        let y = findTop (int S) g x z (int S - 1)
        in contiguousLoop (int S) from to depth x z y 0 g) grid"

function anyLoop ::
  "int \<Rightarrow> int option \<Rightarrow> int \<Rightarrow> int \<Rightarrow> int \<Rightarrow> int \<Rightarrow> int \<Rightarrow> int \<Rightarrow> u8 list \<Rightarrow> u8 list" where
  "anyLoop S from to depth x z y replaced grid =
     (if y \<ge> 0 \<and> replaced < depth then
        (let i = IDX S x y z; b = rd grid i in
         if \<not> same_num b (Block_id Air) \<and> (case from of None \<Rightarrow> True | Some f \<Rightarrow> same_num b f)
         then anyLoop S from to depth x z (y - 1) (replaced + 1) (wr grid i (u8_of (to AND 0xff)))
         else anyLoop S from to depth x z (y - 1) replaced grid)
      else grid)"
  by pat_completeness auto
termination
  by (relation "measure (\<lambda>(S, from, to, depth, x, z, y, replaced, grid). nat (y + 1))") auto

definition replaceTopAny :: "nat \<Rightarrow> int option \<Rightarrow> int \<Rightarrow> int \<Rightarrow> u8 list \<Rightarrow> u8 list" where
  "replaceTopAny S from to depth grid =
     forXZ S (\<lambda>x z g.
        let y = findTop (int S) g x z (int S - 1)
        in anyLoop (int S) from to depth x z y 0 g) grid"

text \<open>
  The two painting passes in their fixed order, grass before dirt, each skipped when its
  depth is not positive.
\<close>

definition paintPhase :: "nat \<Rightarrow> int \<Rightarrow> number \<Rightarrow> number \<Rightarrow> u8 list \<Rightarrow> u8 list" where
  "paintPhase S base grassDepth dirtDepth grid =
     (let grid = (if grassDepth > 0
                  then replaceTopContiguous S base (Block_id Grass) (ToInt32 grassDepth) grid
                  else grid);
          grid = (if dirtDepth > 0
                  then replaceTopAny S (Some base) (Block_id Dirt) (ToInt32 dirtDepth) grid
                  else grid)
      in grid)"

text \<open>
  The two noise seeds, the grid after base fill and surface carving, the cave carving
  of a grid, and the whole generator. The random source is threaded through the two
  calls of \<^verbatim>\<open>makeNoise\<close>.
\<close>

definition noiseSeed1 :: "Params \<Rightarrow> number" where
  "noiseSeed1 params =
     (let S = int (size_p params)
      in toUnitFloat (mix [uint (hash32 (seed_p params)), cx_p params * S, cy_p params * S,
                           cz_p params * S, 0xA1]))"

definition noiseSeed2 :: "Params \<Rightarrow> number" where
  "noiseSeed2 params =
     (let S = int (size_p params)
      in toUnitFloat (mix [uint (hash32 (seed_p params) XOR 0x9e3779b9), cx_p params * S,
                           cy_p params * S, cz_p params * S, 0xB2]))"

definition surfaceStage :: "Params \<Rightarrow> u8 list \<Rightarrow> u8 list" where
  "surfaceStage params surfaceNoise =
     (let S = size_p params;
          ox = cx_p params * int S; oz = cz_p params * int S;
          grid = replicate (S * S * S) (u8_of (base_p params))
      in surfacePhase S ox oz (surfaceScale_p params) surfaceNoise grid)"

definition cavesStage :: "Params \<Rightarrow> u8 list \<Rightarrow> u8 list \<Rightarrow> u8 list" where
  "cavesStage params cavesNoise grid =
     (let S = size_p params;
          ox = cx_p params * int S; oy = cy_p params * int S; oz = cz_p params * int S
      in cavesPhase S ox oy oz (cavesScale_p params) (cavesThreshold_p params) cavesNoise grid)"

definition generateChunkServer :: "Params \<Rightarrow> rng \<Rightarrow> u8 list \<times> rng" where
  "generateChunkServer params r =
     (let (surfaceNoise, r) = makeNoise (Some (noiseSeed1 params)) r;
          (cavesNoise, r) = makeNoise (Some (noiseSeed2 params)) r;
          grid = surfaceStage params surfaceNoise;
          grid = cavesStage params cavesNoise grid;
          grid = paintPhase (size_p params) (base_p params) (grassDepth_p params)
                   (dirtDepth_p params) grid
      in (grid, r))"

text \<open>
  A request with the client's world seed, the smallest chunk size and a cave threshold
  of 1. Its scales are powers of two and its noise seeds are multiples of \<open>2^-27\<close>, so
  every number computed from it is a dyadic rational on which double arithmetic is exact.
\<close>

definition caveRequest :: Params where
  "caveRequest =
     \<lparr>size_p = 4, seed_p = ''1'', base_p = Block_id Stone,
      cx_p = 501081, cy_p = 0, cz_p = - 507684,
      surfaceScale_p = 1, cavesScale_p = 1 / 4, cavesThreshold_p = 1,
      grassDepth_p = 2, dirtDepth_p = 3\<rparr>"

text \<open>
  The voxels of column \<open>(x, z)\<close> of a grid, from \<open>y = 0\<close> at the head to
  \<open>y = S - 1\<close> at the end.
\<close>

definition column :: "nat \<Rightarrow> u8 list \<Rightarrow> int \<Rightarrow> int \<Rightarrow> u8 option list" where
  "column S grid x z = map (\<lambda>y. rd grid (IDX (int S) x (int y) z)) [0..<S]"

section \<open>ChunkCacheKey (route.ts)\<close>

text \<open>
  \<^verbatim>\<open>keyOf\<close>: the fields rendered by the template literal and joined by \<^verbatim>\<open>|\<close>. The
  conversion of a number to a string is the language's; it is the parameter \<open>str\<close>.
\<close>

definition keyOf :: "(number \<Rightarrow> string) \<Rightarrow> Params \<Rightarrow> string" where
  "keyOf str p =
     str (of_nat (size_p p)) @ ''|'' @ seed_p p @ ''|'' @ str (of_int (base_p p)) @ ''|''
     @ str (of_int (cx_p p)) @ ''|'' @ str (of_int (cy_p p)) @ ''|'' @ str (of_int (cz_p p))
     @ ''|'' @ str (surfaceScale_p p) @ ''|'' @ str (cavesScale_p p) @ ''|''
     @ str (cavesThreshold_p p) @ ''|'' @ str (grassDepth_p p) @ ''|'' @ str (dirtDepth_p p)"

text \<open>The number of fields in which two parameter values differ.\<close>

definition differing_fields :: "Params \<Rightarrow> Params \<Rightarrow> nat" where
  "differing_fields p q =
     length (filter id
       [size_p p \<noteq> size_p q, seed_p p \<noteq> seed_p q, base_p p \<noteq> base_p q, cx_p p \<noteq> cx_p q,
        cy_p p \<noteq> cy_p q, cz_p p \<noteq> cz_p q, surfaceScale_p p \<noteq> surfaceScale_p q,
        cavesScale_p p \<noteq> cavesScale_p q, cavesThreshold_p p \<noteq> cavesThreshold_p q,
        grassDepth_p p \<noteq> grassDepth_p q, dirtDepth_p p \<noteq> dirtDepth_p q])"

text \<open>
  A concrete rendering of numbers that is injective: the numerator and the denominator
  of the fraction in lowest terms. It stands in for the language's conversion where a
  concrete one is needed.
\<close>

definition show_fraction :: "number \<Rightarrow> string" where
  "show_fraction q = (case quotient_of q of (a, b) \<Rightarrow> show_int a @ CHR ''/'' # show_int b)"

section \<open>The client-side generator (chunk.ts, surface\_details.ts)\<close>

text \<open>\<^verbatim>\<open>generateChunk(CHUNK, fill)\<close>: a buffer of \<open>CHUNK^3\<close> voxels, all \<open>fill\<close>.\<close>

definition generateChunk :: "nat \<Rightarrow> int \<Rightarrow> u8 list" where
  "generateChunk CHUNK fill = replicate (CHUNK * CHUNK * CHUNK) (u8_of fill)"

datatype Layout = Layout_xzy | Layout_xyz

datatype PaintMode = Mode_contiguous | Mode_any

definition layoutIDX :: "Layout \<Rightarrow> int \<Rightarrow> int \<Rightarrow> int \<Rightarrow> int \<Rightarrow> int" where
  "layoutIDX layout sz x y z =
     (case layout of
        Layout_xzy \<Rightarrow> x + z * sz + y * sz * sz
      | Layout_xyz \<Rightarrow> x + y * sz + z * sz * sz)"

text \<open>\<^verbatim>\<open>isEmpty\<close>: \<^verbatim>\<open>v === 0 || v === Block.Air || v == null\<close>.\<close>

definition isEmpty :: "u8 option \<Rightarrow> bool" where
  "isEmpty v = (same_num v 0 \<or> same_num v (Block_id Air) \<or> v = None)"

text \<open>\<^verbatim>\<open>matches\<close>: \<^verbatim>\<open>from == null ? true : v === from\<close>.\<close>

definition matches :: "int option \<Rightarrow> u8 option \<Rightarrow> bool" where
  "matches from v = (case from of None \<Rightarrow> True | Some f \<Rightarrow> same_num v f)"

function skipEmpty :: "Layout \<Rightarrow> int \<Rightarrow> u8 list \<Rightarrow> int \<Rightarrow> int \<Rightarrow> int \<Rightarrow> int" where
  "skipEmpty layout sz voxels x z y =
     (if y \<ge> 0 \<and> isEmpty (rd voxels (layoutIDX layout sz x y z))
      then skipEmpty layout sz voxels x z (y - 1) else y)"
  by pat_completeness auto
termination
  by (relation "measure (\<lambda>(layout, sz, voxels, x, z, y). nat (y + 1))") auto

function paintLoop ::
  "Layout \<Rightarrow> int \<Rightarrow> int option \<Rightarrow> int \<Rightarrow> number \<Rightarrow> PaintMode \<Rightarrow> int \<Rightarrow> int \<Rightarrow> int \<Rightarrow> int
   \<Rightarrow> u8 list \<Rightarrow> u8 list" where
  "paintLoop layout sz from to depth mode x z y replaced voxels =
     (if y \<ge> 0 \<and> of_int replaced < depth then
        (let i = layoutIDX layout sz x y z; b = rd voxels i in
         if isEmpty b then voxels
         else (case mode of
                 Mode_contiguous \<Rightarrow>
                   if \<not> matches from b then voxels
                   else paintLoop layout sz from to depth mode x z (y - 1) (replaced + 1)
                          (wr voxels i (u8_of to))
               | Mode_any \<Rightarrow>
                   if matches from b
                   then paintLoop layout sz from to depth mode x z (y - 1) (replaced + 1)
                          (wr voxels i (u8_of to))
                   else paintLoop layout sz from to depth mode x z (y - 1) replaced voxels))
      else voxels)"
  by pat_completeness auto
termination
  by (relation "measure (\<lambda>(layout, sz, from, to, depth, mode, x, z, y, replaced, voxels).
        nat (y + 1))") auto

text \<open>
  \<^verbatim>\<open>PaintLayer(voxels, size, from, to, depth, layout, mode)\<close>, on the byte buffer it is
  called with; \<open>paintColumn\<close> is the body of its loop over the columns. (The defaults of
  \<open>depth\<close>, \<open>layout\<close> and \<open>mode\<close> are not used by any caller.)
\<close>

definition paintColumn ::
  "Layout \<Rightarrow> int \<Rightarrow> int option \<Rightarrow> int \<Rightarrow> number \<Rightarrow> PaintMode \<Rightarrow> int \<Rightarrow> int \<Rightarrow> u8 list
   \<Rightarrow> u8 list" where
  "paintColumn layout sz from to depth mode x z voxels =
     (let y = skipEmpty layout sz voxels x z (sz - 1)
      in if y < 0 then voxels
         else paintLoop layout sz from to depth mode x z y 0 voxels)"

definition PaintLayer ::
  "u8 list \<Rightarrow> nat \<Rightarrow> int option \<Rightarrow> int \<Rightarrow> number \<Rightarrow> Layout \<Rightarrow> PaintMode \<Rightarrow> u8 list" where
  "PaintLayer voxels sz from to depth layout mode =
     forXZ sz (paintColumn layout (int sz) from to depth mode) voxels"

section \<open>ChunkStreamManager (WorldCanvas.tsx)\<close>

definition CHUNK :: nat where
  "CHUNK = 16"

definition BASE_BLOCK :: int where
  "BASE_BLOCK = Block_id Stone"

definition VIEW_RADIUS :: int where
  "VIEW_RADIUS = 6"

text \<open>
  The chunk generated locally in the \<^verbatim>\<open>catch\<close> branch of \<^verbatim>\<open>loadChunkAt\<close>: base fill,
  the grass layer, and a dirt layer whose depth \<^verbatim>\<open>Math.random() * 4 + 1\<close> is drawn from the
  random source. Neither the world seed nor the chunk coordinate enters it.
\<close>

definition localFallback :: "rng \<Rightarrow> u8 list \<times> rng" where
  "localFallback r =
     (let local = generateChunk CHUNK BASE_BLOCK;
          local = PaintLayer local CHUNK (Some BASE_BLOCK) (Block_id Grass) 2
                    Layout_xyz Mode_contiguous;
          (d, r) = Math_random r;
          local = PaintLayer local CHUNK (Some BASE_BLOCK) (Block_id Dirt) (d * 4 + 1)
                    Layout_xyz Mode_any
      in (local, r))"

text \<open>
  The renderable built from a voxel buffer. Its meshes stand for the instanced meshes of
  the eight block types (sharing one cube geometry and the registry's materials) and for
  the bounding-box helper; the voxel buffer stands for the instance matrices.
\<close>

datatype Mesh = InstancedMesh Block | Box3Helper

record Group =
  voxelsOf :: "u8 list"
  children :: "Mesh list"
  position :: "int \<times> int \<times> int"

definition buildInstancedChunk :: "u8 list \<Rightarrow> nat \<Rightarrow> Group" where
  "buildInstancedChunk grid sz =
     \<lparr>voxelsOf = grid,
      children = map InstancedMesh
        [Grass, Dirt, Gizmos, Stone, RedFlower, OrangeFlower, PinkFlower, WhiteFlower],
      position = (0, 0, 0)\<rparr>"

text \<open>
  \<^verbatim>\<open>disposeObject(object, {disposeGeometry = false, disposeMaterial = false})\<close>
  (dispose.ts): the \<^verbatim>\<open>dispose()\<close> calls it makes while traversing the object. The group
  itself has neither geometry nor material; each mesh below it has both.
\<close>

datatype Disposal = DisposeGeometry Mesh | DisposeMaterial Mesh

definition disposeObject :: "Group \<Rightarrow> bool \<Rightarrow> bool \<Rightarrow> Disposal list" where
  "disposeObject object disposeGeometry disposeMaterial =
     concat (map (\<lambda>obj. (if disposeGeometry then [DisposeGeometry obj] else [])
                        @ (if disposeMaterial then [DisposeMaterial obj] else []))
               (children object))"

text \<open>
  The state of the stream manager: the map \<^verbatim>\<open>loaded\<close> (in insertion order), the set
  \<^verbatim>\<open>inflight\<close>, the flag \<^verbatim>\<open>disposed\<close> and the children of \<^verbatim>\<open>worldGroup\<close>; the
  invocations of \<^verbatim>\<open>loadChunkAt\<close> that are suspended at an \<^verbatim>\<open>await\<close>; and three
  logs of what the manager did to its environment: the fetches it issued, the
  \<^verbatim>\<open>dispose()\<close> calls it made, and the random source.
\<close>

datatype Stage = AwaitFetch | AwaitBody

datatype Task = Task (task_key: string) (task_cx: int) (task_cz: int) (stage: Stage)

record Manager =
  loaded :: "(string \<times> Group) list"
  inflight :: "string set"
  disposed :: bool
  worldGroup :: "Group list"
  suspended :: "Task list"
  fetches :: "(int \<times> int) list"
  disposals :: "Disposal list"
  rnd :: rng

definition initial :: "rng \<Rightarrow> Manager" where
  "initial r =
     \<lparr>loaded = [], inflight = {}, disposed = False, worldGroup = [], suspended = [],
      fetches = [], disposals = [], rnd = r\<rparr>"

text \<open>The key \<^verbatim>\<open>`${cx},${cz}`\<close> of a chunk coordinate (the inner \<^verbatim>\<open>keyOf\<close>).\<close>

definition keyOf_xz :: "int \<Rightarrow> int \<Rightarrow> string" where
  "keyOf_xz cx cz = show_int cx @ CHR '','' # show_int cz"

text \<open>
  \<^verbatim>\<open>loadChunkAt\<close> up to its first \<^verbatim>\<open>await\<close>: the guard, the insertion into
  \<^verbatim>\<open>inflight\<close>, and the fetch; the invocation is then suspended.
\<close>

definition loadChunkAt :: "int \<Rightarrow> int \<Rightarrow> Manager \<Rightarrow> Manager" where
  "loadChunkAt cx cz m =
     (let key = keyOf_xz cx cz in
      if map_of (loaded m) key \<noteq> None \<or> key \<in> inflight m \<or> disposed m then m
      else m\<lparr>inflight := insert key (inflight m),
             fetches := fetches m @ [(cx, cz)],
             suspended := suspended m @ [Task key cx cz AwaitFetch]\<rparr>)"

text \<open>Positioning a built group, adding it to the world and recording it as loaded.\<close>

definition admit :: "Task \<Rightarrow> Group \<Rightarrow> Manager \<Rightarrow> Manager" where
  "admit t grp m =
     (let grp = grp\<lparr>position := (task_cx t * int CHUNK, 0, task_cz t * int CHUNK)\<rparr>
      in m\<lparr>worldGroup := worldGroup m @ [grp],
            loaded := AList.update (task_key t) grp (loaded m)\<rparr>)"

text \<open>The \<^verbatim>\<open>catch\<close> branch: local generation, admitted unless the manager is disposed.\<close>

definition catchBranch :: "Task \<Rightarrow> Manager \<Rightarrow> Manager" where
  "catchBranch t m =
     (let (local, r) = localFallback (rnd m);
          m = m\<lparr>rnd := r\<rparr>
      in if \<not> disposed m then admit t (buildInstancedChunk local CHUNK) m else m)"

text \<open>The rest of the \<^verbatim>\<open>try\<close> block once the body has arrived.\<close>

definition tryRest :: "Task \<Rightarrow> u8 list \<Rightarrow> Manager \<Rightarrow> Manager" where
  "tryRest t grid m =
     (if disposed m then m
      else (let grp = buildInstancedChunk grid CHUNK;
                grp = grp\<lparr>children := children grp @ [Box3Helper]\<rparr>
            in admit t grp m))"

text \<open>The \<^verbatim>\<open>finally\<close> branch, and the end of the invocation numbered \<open>i\<close>.\<close>

definition finallyBranch :: "nat \<Rightarrow> Task \<Rightarrow> Manager \<Rightarrow> Manager" where
  "finallyBranch i t m =
     m\<lparr>inflight := inflight m - {task_key t},
       suspended := take i (suspended m) @ drop (Suc i) (suspended m)\<rparr>"

text \<open>
  The outcome of \<^verbatim>\<open>await fetch(url)\<close>: a rejection, or a response with its \<^verbatim>\<open>ok\<close>
  flag; and of \<^verbatim>\<open>await res.arrayBuffer()\<close>: a rejection, or the bytes.
\<close>

datatype FetchResult = Rejected | Response bool

datatype BodyResult = BodyRejected | Body "u8 list"

definition resumeFetch :: "nat \<Rightarrow> FetchResult \<Rightarrow> Manager \<Rightarrow> Manager" where
  "resumeFetch i res m =
     (if i < length (suspended m) \<and> stage (suspended m ! i) = AwaitFetch then
        (let t = suspended m ! i in
         case res of
           Response True \<Rightarrow>
             m\<lparr>suspended := (suspended m)[i := Task (task_key t) (task_cx t) (task_cz t) AwaitBody]\<rparr>
         | _ \<Rightarrow> finallyBranch i t (catchBranch t m))
      else m)"

definition resumeBody :: "nat \<Rightarrow> BodyResult \<Rightarrow> Manager \<Rightarrow> Manager" where
  "resumeBody i res m =
     (if i < length (suspended m) \<and> stage (suspended m ! i) = AwaitBody then
        (let t = suspended m ! i in
         case res of
           Body grid \<Rightarrow> finallyBranch i t (tryRest t grid m)
         | BodyRejected \<Rightarrow> finallyBranch i t (catchBranch t m))
      else m)"

text \<open>
  \<^verbatim>\<open>ensureChunksAround\<close>: the loads of the square around the centre, each run up to its
  first \<^verbatim>\<open>await\<close>, then the eviction loop over the entries of \<^verbatim>\<open>loaded\<close>;
  \<open>tooFar\<close> is the condition of that loop, on the coordinates parsed back from the
  key. A coordinate parsed as \<^verbatim>\<open>NaN\<close> compares false.
\<close>

definition far :: "int option \<Rightarrow> int \<Rightarrow> bool" where
  "far g c = (case g of None \<Rightarrow> False | Some v \<Rightarrow> \<bar>v - c\<bar> > VIEW_RADIUS + 1)"

definition tooFar :: "int \<Rightarrow> int \<Rightarrow> string \<Rightarrow> bool" where
  "tooFar cx cz key =
     (let parts = map parseInt (splitOn (CHR '','') key);
          gx = (if 0 < length parts then parts ! 0 else None);
          gz = (if 1 < length parts then parts ! 1 else None)
      in far gx cx \<or> far gz cz)"

definition evictEntry :: "int \<Rightarrow> int \<Rightarrow> string \<times> Group \<Rightarrow> Manager \<Rightarrow> Manager" where
  "evictEntry cx cz e m =
     (let (key, grp) = e
      in if tooFar cx cz key
         then m\<lparr>worldGroup := remove1 grp (worldGroup m),
                disposals := disposals m @ disposeObject grp False False,
                loaded := AList.delete key (loaded m)\<rparr>
         else m)"

definition ensureChunksAround :: "int \<Rightarrow> int \<Rightarrow> Manager \<Rightarrow> Manager" where
  "ensureChunksAround cx cz m =
     (let m = fold (\<lambda>dz m. fold (\<lambda>dx m. loadChunkAt (cx + dx) (cz + dz) m)
                      [- VIEW_RADIUS..VIEW_RADIUS] m)
                [- VIEW_RADIUS..VIEW_RADIUS] m
      in fold (evictEntry cx cz) (loaded m) m)"

text \<open>The part of the effect's cleanup that touches the manager.\<close>

definition cleanup :: "Manager \<Rightarrow> Manager" where
  "cleanup m =
     (let m = m\<lparr>disposed := True\<rparr>;
          m = m\<lparr>disposals := disposals m
                  @ concat (map (\<lambda>(key, grp). disposeObject grp False False) (loaded m))\<rparr>
      in m\<lparr>loaded := []\<rparr>)"

text \<open>
  What can happen to a manager: the game loop calls \<^verbatim>\<open>ensureChunksAround\<close>, a suspended
  invocation of \<^verbatim>\<open>loadChunkAt\<close> is resumed with the outcome of its \<^verbatim>\<open>await\<close>, or the
  component is unmounted. Invocations interleave only at their \<^verbatim>\<open>await\<close>s.
\<close>

datatype Event =
  EnsureAround int int
| FetchDone nat FetchResult
| BodyDone nat BodyResult
| Unmount

fun step :: "Event \<Rightarrow> Manager \<Rightarrow> Manager" where
  "step (EnsureAround cx cz) m = ensureChunksAround cx cz m"
| "step (FetchDone i res) m = resumeFetch i res m"
| "step (BodyDone i res) m = resumeBody i res m"
| "step Unmount m = cleanup m"

definition run :: "Event list \<Rightarrow> Manager \<Rightarrow> Manager" where
  "run evs m = fold step evs m"

text \<open>
  Two predicates used in the proofs below. The bookkeeping of suspended loads: their keys
  are pairwise different, they are exactly the keys in \<^verbatim>\<open>inflight\<close>, and each is the
  key of its coordinate. A key is covered when \<^verbatim>\<open>loadChunkAt\<close> returns at its guard.
\<close>

definition bookkeeping :: "Manager \<Rightarrow> bool" where
  "bookkeeping m \<longleftrightarrow>
     distinct (map task_key (suspended m))
     \<and> set (map task_key (suspended m)) = inflight m
     \<and> (\<forall>t \<in> set (suspended m). keyOf_xz (task_cx t) (task_cz t) = task_key t)"

definition covered :: "Manager \<Rightarrow> string \<Rightarrow> bool" where
  "covered m k \<longleftrightarrow> map_of (loaded m) k \<noteq> None \<or> k \<in> inflight m \<or> disposed m"

declare carveAbove.simps [simp del] findTop.simps [simp del]
  contiguousLoop.simps [simp del] anyLoop.simps [simp del] skipEmpty.simps [simp del]
  paintLoop.simps [simp del] digits.simps [simp del]

section \<open>Properties of the SeedMixer\<close>

lemma mix_loop_fold: "mix_loop h ns = fold (\<lambda>n a. a XOR mix_step n) ns h"
  by (induction ns arbitrary: h) simp_all

lemma mix_loop_mset:
  assumes "mset xs = mset ys"
  shows "mix_loop h xs = mix_loop h ys"
proof -
  have "fold (\<lambda>n a. a XOR mix_step n) xs = fold (\<lambda>n a. a XOR mix_step n) ys"
    by (rule fold_multiset_equiv) (auto simp: fun_eq_iff assms ac_simps)
  then show ?thesis by (simp add: mix_loop_fold)
qed


lemma makeNoise_Some: "makeNoise (Some s) r = (permTable s, r)"
  by (simp add: makeNoise_def)

section \<open>Typed arrays, indices and loops: basic facts\<close>

lemma length_wr [simp]: "length (wr a i v) = length a"
  by (simp add: wr_def)

lemma rd_wr: "rd (wr a i v) j = (if i = j \<and> 0 \<le> i \<and> i < int (length a) then Some v else rd a j)"
  by (auto simp: rd_def wr_def)

lemma rd_wr_other: "i \<noteq> j \<Longrightarrow> rd (wr a i v) j = rd a j"
  by (simp add: rd_wr)

lemma IDX_inject:
  assumes "0 \<le> x" "x < S" "0 \<le> x'" "x' < S" "0 \<le> y" "y < S" "0 \<le> y'" "y' < S"
    and eq: "IDX S x y z = IDX S x' y' z'"
  shows "x = x' \<and> y = y' \<and> z = z'"
proof -
  have e: "x + S * (y + S * z) = x' + S * (y' + S * z')"
    using eq by (simp add: IDX_def algebra_simps)
  have "(x + S * (y + S * z)) mod S = x" "(x' + S * (y' + S * z')) mod S = x'"
    using assms by simp_all
  with e have x: "x = x'" by simp
  have S: "S \<noteq> 0" using assms by auto
  from e x S have e2: "y + S * z = y' + S * z'" by simp
  have "(y + S * z) mod S = y" "(y' + S * z') mod S = y'"
    using assms by simp_all
  with e2 have y: "y = y'" by simp
  with e2 S have "z = z'" by simp
  with x y show ?thesis by simp
qed

lemma fold_inv:
  assumes "\<And>a s. a \<in> set xs \<Longrightarrow> I s \<Longrightarrow> I (f a s)" and "I s"
  shows "I (fold f xs s)"
  using assms by (induction xs arbitrary: s) auto

lemma fold_hit:
  assumes "a \<in> set xs" and "distinct xs"
    and "\<And>b s. b \<in> set xs \<Longrightarrow> b \<noteq> a \<Longrightarrow> Pre s \<Longrightarrow> Pre (f b s)"
    and "\<And>b s. b \<in> set xs \<Longrightarrow> b \<noteq> a \<Longrightarrow> Post s \<Longrightarrow> Post (f b s)"
    and "\<And>s. Pre s \<Longrightarrow> Post (f a s)"
    and "Pre s"
  shows "Post (fold f xs s)"
  using assms
proof (induction xs arbitrary: s)
  case Nil
  then show ?case by simp
next
  case (Cons b xs)
  show ?case
  proof (cases "b = a")
    case True
    then have "a \<notin> set xs" using Cons.prems(2) by simp
    have "Post (f a s)" using Cons.prems by simp
    then have "Post (fold f xs (f a s))"
      by (rule fold_inv [rotated]) (use Cons.prems \<open>a \<notin> set xs\<close> in auto)
    then show ?thesis using True by simp
  next
    case False
    then have "a \<in> set xs" using Cons.prems(1) by simp
    moreover have "Pre (f b s)" using Cons.prems False by simp
    ultimately have "Post (fold f xs (f b s))"
      using Cons.prems by (intro Cons.IH) auto
    then show ?thesis by simp
  qed
qed

lemma forXZ_column:
  assumes x: "x < S" and z: "z < S"
    and pre: "\<And>x' z' g. x' < S \<Longrightarrow> z' < S \<Longrightarrow> (x', z') \<noteq> (x, z) \<Longrightarrow> Pre g
                \<Longrightarrow> Pre (f (int x') (int z') g)"
    and post: "\<And>x' z' g. x' < S \<Longrightarrow> z' < S \<Longrightarrow> (x', z') \<noteq> (x, z) \<Longrightarrow> Post g
                \<Longrightarrow> Post (f (int x') (int z') g)"
    and hit: "\<And>g. Pre g \<Longrightarrow> Post (f (int x) (int z) g)"
    and init: "Pre g"
  shows "Post (forXZ S f g)"
  unfolding forXZ_def
proof (rule fold_hit [where a = x and Pre = Pre])
  show "x \<in> set [0..<S]" using x by simp
  show "distinct [0..<S]" by simp
  show "Pre g" by (rule init)
next
  fix b s assume b: "b \<in> set [0..<S]" "b \<noteq> x" and s: "Pre s"
  show "Pre (fold (\<lambda>z g. f (int b) (int z) g) [0..<S] s)"
    by (rule fold_inv [where I = Pre]) (use b s pre in auto)
next
  fix b s assume b: "b \<in> set [0..<S]" "b \<noteq> x" and s: "Post s"
  show "Post (fold (\<lambda>z g. f (int b) (int z) g) [0..<S] s)"
    by (rule fold_inv [where I = Post]) (use b s post in auto)
next
  fix s assume s: "Pre s"
  show "Post (fold (\<lambda>z g. f (int x) (int z) g) [0..<S] s)"
  proof (rule fold_hit [where a = z and Pre = Pre])
    show "z \<in> set [0..<S]" using z by simp
    show "distinct [0..<S]" by simp
    show "Pre s" by (rule s)
  qed (use x pre post hit in auto)
qed

section \<open>The painting loops of the server generator\<close>

lemma findTop_le: "findTop S g x z y \<le> y"
proof (induction S g x z y rule: findTop.induct)
  case (1 S grid x z y)
  show ?case
    by (subst findTop.simps) (use 1 in \<open>auto simp: le_diff_eq\<close>)
qed

lemma findTop_solid:
  "\<not> same_num (rd g (IDX S x y z)) (Block_id Air) \<Longrightarrow> findTop S g x z y = y"
  by (subst findTop.simps) simp

lemma contiguousLoop_frame:
  "(\<And>y'. 0 \<le> y' \<Longrightarrow> y' \<le> y \<Longrightarrow> IDX S x y' z \<noteq> i)
   \<Longrightarrow> rd (contiguousLoop S from to depth x z y replaced g) i = rd g i"
proof (induction S "from" to depth x z y replaced g rule: contiguousLoop.induct)
  case (1 S "from" to depth x z y replaced grid)
  show ?case
  proof (cases "y \<ge> 0 \<and> replaced < depth \<and> \<not> same_num (rd grid (IDX S x y z)) (Block_id Air)
      \<and> same_num (rd grid (IDX S x y z)) from")
    case True
    have "rd (contiguousLoop S from to depth x z (y - 1) (replaced + 1)
              (wr grid (IDX S x y z) (u8_of (to AND 0xff)))) i
          = rd (wr grid (IDX S x y z) (u8_of (to AND 0xff))) i"
      using True "1.prems" by (intro "1.IH") auto
    also have "\<dots> = rd grid i"
      using True "1.prems" [of y] by (simp add: rd_wr)
    finally show ?thesis
      using True by (subst contiguousLoop.simps) (simp add: Let_def)
  next
    case False
    then show ?thesis
      by (subst contiguousLoop.simps) (auto simp: Let_def)
  qed
qed

lemma anyLoop_frame:
  "(\<And>y'. 0 \<le> y' \<Longrightarrow> y' \<le> y \<Longrightarrow> IDX S x y' z \<noteq> i)
   \<Longrightarrow> rd (anyLoop S from to depth x z y replaced g) i = rd g i"
proof (induction S "from" to depth x z y replaced g rule: anyLoop.induct)
  case (1 S "from" to depth x z y replaced grid)
  show ?case
  proof (cases "y \<ge> 0 \<and> replaced < depth")
    case True
    note T = this
    show ?thesis
    proof (cases "\<not> same_num (rd grid (IDX S x y z)) (Block_id Air)
        \<and> (case from of None \<Rightarrow> True | Some f \<Rightarrow> same_num (rd grid (IDX S x y z)) f)")
      case True
      have "rd (anyLoop S from to depth x z (y - 1) (replaced + 1)
                (wr grid (IDX S x y z) (u8_of (to AND 0xff)))) i
            = rd (wr grid (IDX S x y z) (u8_of (to AND 0xff))) i"
        using T True "1.prems" by (intro "1.IH"(1)) auto
      also have "\<dots> = rd grid i"
        using T "1.prems" [of y] by (simp add: rd_wr)
      finally show ?thesis
        using T True by (subst anyLoop.simps) (simp add: Let_def)
    next
      case False
      have "rd (anyLoop S from to depth x z (y - 1) replaced grid) i = rd grid i"
        using T False "1.prems" by (intro "1.IH"(2)) auto
      then show ?thesis
        using T False by (subst anyLoop.simps) (auto simp: Let_def)
    qed
  next
    case False
    then show ?thesis
      by (subst anyLoop.simps) (auto simp: Let_def)
  qed
qed

lemma rd_wr_in: "rd a i = Some b \<Longrightarrow> rd (wr a i v) j = (if i = j then Some v else rd a j)"
  by (auto simp: rd_def wr_def split: if_splits)

lemma IDX_y_inject: "S \<noteq> 0 \<Longrightarrow> IDX S x y z = IDX S x y' z \<longleftrightarrow> y = y'"
  by (simp add: IDX_def)

lemma ToInt32_small: "ToInt32 2 = 2" "ToInt32 3 = 3"
  by (simp_all add: ToInt32_def trunc_def)

lemma contiguousLoop_step:
  "0 \<le> y \<Longrightarrow> replaced < depth \<Longrightarrow> rd g (IDX S x y z) = Some b \<Longrightarrow> uint b = from
   \<Longrightarrow> from \<noteq> 0
   \<Longrightarrow> contiguousLoop S from to depth x z y replaced g
       = contiguousLoop S from to depth x z (y - 1) (replaced + 1)
           (wr g (IDX S x y z) (u8_of (to AND 0xff)))"
  by (subst contiguousLoop.simps) (simp add: Let_def same_num_def)

lemma contiguousLoop_stop:
  "\<not> replaced < depth \<Longrightarrow> contiguousLoop S from to depth x z y replaced g = g"
  by (subst contiguousLoop.simps) simp

lemma anyLoop_hit:
  "0 \<le> y \<Longrightarrow> replaced < depth \<Longrightarrow> rd g (IDX S x y z) = Some b \<Longrightarrow> uint b = from
   \<Longrightarrow> from \<noteq> 0
   \<Longrightarrow> anyLoop S (Some from) to depth x z y replaced g
       = anyLoop S (Some from) to depth x z (y - 1) (replaced + 1)
           (wr g (IDX S x y z) (u8_of (to AND 0xff)))"
  by (subst anyLoop.simps) (simp add: Let_def same_num_def)

lemma anyLoop_skip:
  "0 \<le> y \<Longrightarrow> replaced < depth \<Longrightarrow> rd g (IDX S x y z) = Some b \<Longrightarrow> uint b \<noteq> from
   \<Longrightarrow> anyLoop S (Some from) to depth x z y replaced g
       = anyLoop S (Some from) to depth x z (y - 1) replaced g"
  by (subst anyLoop.simps) (simp add: Let_def same_num_def)

lemma anyLoop_stop:
  "\<not> replaced < depth \<Longrightarrow> anyLoop S from to depth x z y replaced g = g"
  by (subst anyLoop.simps) simp

text \<open>The grass pass on a column filled with the base block.\<close>

lemma grass_column:
  fixes S :: nat
  assumes S: "5 \<le> S"
    and col: "\<And>y. 0 \<le> y \<Longrightarrow> y < int S \<Longrightarrow> rd g (IDX (int S) X y Z) = Some b"
    and b: "uint b = base" "base \<noteq> 0"
    and y: "0 \<le> y" "y < int S"
  shows "rd (let t = findTop (int S) g X Z (int S - 1)
             in contiguousLoop (int S) base (Block_id Grass) 2 X Z t 0 g) (IDX (int S) X y Z)
         = (if int S - 2 \<le> y then Some 1 else Some b)"
proof -
  let ?i1 = "IDX (int S) X (int S - 1) Z" and ?i2 = "IDX (int S) X (int S - 2) Z"
  let ?G = "u8_of (Block_id Grass AND 0xff)"
  have S0: "int S \<noteq> 0" using S by simp
  have r1: "rd g ?i1 = Some b" and r2: "rd g ?i2 = Some b"
    using S by (auto intro!: col)
  have top: "findTop (int S) g X Z (int S - 1) = int S - 1"
    by (rule findTop_solid) (use r1 b in \<open>simp add: same_num_def\<close>)
  let ?g1 = "wr g ?i1 ?G"
  let ?g2 = "wr ?g1 ?i2 ?G"
  have r2': "rd ?g1 ?i2 = Some b"
    using r1 r2 S0 by (simp add: rd_wr_in IDX_y_inject)
  have "contiguousLoop (int S) base (Block_id Grass) 2 X Z (int S - 1) 0 g
        = contiguousLoop (int S) base (Block_id Grass) 2 X Z (int S - 2) 1 ?g1"
    using contiguousLoop_step [of "int S - 1" 0 2 g "int S" X Z b base "Block_id Grass"] r1 b S
    by simp
  also have "\<dots> = contiguousLoop (int S) base (Block_id Grass) 2 X Z (int S - 3) 2 ?g2"
    using contiguousLoop_step [of "int S - 2" 1 2 ?g1 "int S" X Z b base "Block_id Grass"] r2' b S
    by simp
  also have "\<dots> = ?g2"
    by (rule contiguousLoop_stop) simp
  finally have res: "(let t = findTop (int S) g X Z (int S - 1)
             in contiguousLoop (int S) base (Block_id Grass) 2 X Z t 0 g) = ?g2"
    by (simp add: top)
  have "rd ?g2 (IDX (int S) X y Z) = (if int S - 2 \<le> y then Some 1 else Some b)"
    using r1 r2' y S0 col [of y] by (auto simp: rd_wr_in IDX_y_inject u8_of_def)
  then show ?thesis by (simp only: res)
qed

text \<open>The dirt pass on a column that the grass pass has painted.\<close>

lemma dirt_column:
  fixes S :: nat
  assumes S: "5 \<le> S"
    and col: "\<And>y. 0 \<le> y \<Longrightarrow> y < int S
                \<Longrightarrow> rd g (IDX (int S) X y Z) = (if int S - 2 \<le> y then Some 1 else Some b)"
    and b: "uint b = base" "base \<noteq> 0" "base \<noteq> 1"
    and y: "0 \<le> y" "y < int S"
  shows "rd (let t = findTop (int S) g X Z (int S - 1)
             in anyLoop (int S) (Some base) (Block_id Dirt) 3 X Z t 0 g) (IDX (int S) X y Z)
         = (if int S - 2 \<le> y then Some 1 else if int S - 5 \<le> y then Some 2 else Some b)"
proof -
  let ?I = "\<lambda>k. IDX (int S) X (int S - k) Z"
  let ?D = "u8_of (Block_id Dirt AND 0xff)"
  have S0: "int S \<noteq> 0" using S by simp
  have r1: "rd g (?I 1) = Some 1" and r2: "rd g (?I 2) = Some 1"
    and r3: "rd g (?I 3) = Some b" and r4: "rd g (?I 4) = Some b" and r5: "rd g (?I 5) = Some b"
    using S col [of "int S - 1"] col [of "int S - 2"] col [of "int S - 3"] col [of "int S - 4"]
      col [of "int S - 5"] by auto
  have top: "findTop (int S) g X Z (int S - 1) = int S - 1"
    by (rule findTop_solid) (use r1 in \<open>simp add: same_num_def\<close>)
  let ?g3 = "wr g (?I 3) ?D"
  let ?g4 = "wr ?g3 (?I 4) ?D"
  let ?g5 = "wr ?g4 (?I 5) ?D"
  have r4': "rd ?g3 (?I 4) = Some b"
    using r3 r4 S0 by (simp add: rd_wr_in IDX_y_inject)
  have r5': "rd ?g4 (?I 5) = Some b"
    using r3 r4' r5 S0 by (simp add: rd_wr_in IDX_y_inject)
  have one: "uint (1 :: u8) \<noteq> base" using b by simp
  have "anyLoop (int S) (Some base) (Block_id Dirt) 3 X Z (int S - 1) 0 g
        = anyLoop (int S) (Some base) (Block_id Dirt) 3 X Z (int S - 2) 0 g"
    using anyLoop_skip [of "int S - 1" 0 3 g "int S" X Z 1 base "Block_id Dirt"] r1 one S
    by simp
  also have "\<dots> = anyLoop (int S) (Some base) (Block_id Dirt) 3 X Z (int S - 3) 0 g"
    using anyLoop_skip [of "int S - 2" 0 3 g "int S" X Z 1 base "Block_id Dirt"] r2 one S
    by simp
  also have "\<dots> = anyLoop (int S) (Some base) (Block_id Dirt) 3 X Z (int S - 4) 1 ?g3"
    using anyLoop_hit [of "int S - 3" 0 3 g "int S" X Z b base "Block_id Dirt"] r3 b S
    by simp
  also have "\<dots> = anyLoop (int S) (Some base) (Block_id Dirt) 3 X Z (int S - 5) 2 ?g4"
    using anyLoop_hit [of "int S - 4" 1 3 ?g3 "int S" X Z b base "Block_id Dirt"] r4' b S
    by simp
  also have "\<dots> = anyLoop (int S) (Some base) (Block_id Dirt) 3 X Z (int S - 6) 3 ?g5"
    using anyLoop_hit [of "int S - 5" 2 3 ?g4 "int S" X Z b base "Block_id Dirt"] r5' b S
    by simp
  also have "\<dots> = ?g5"
    by (rule anyLoop_stop) simp
  finally have res: "(let t = findTop (int S) g X Z (int S - 1)
             in anyLoop (int S) (Some base) (Block_id Dirt) 3 X Z t 0 g) = ?g5"
    by (simp add: top)
  have "rd ?g5 (IDX (int S) X y Z)
        = (if int S - 2 \<le> y then Some 1 else if int S - 5 \<le> y then Some 2 else Some b)"
    using r3 r4' r5' y S0 col [of y] by (auto simp: rd_wr_in IDX_y_inject u8_of_def)
  then show ?thesis by (simp only: res)
qed

lemma contiguous_column_frame:
  fixes S x z x' z' :: nat
  assumes "x < S" "z < S" "x' < S" "z' < S" "x' = x \<longrightarrow> z' \<noteq> z" "0 \<le> y" "y < int S"
  shows "rd (contiguousLoop (int S) from to depth (int x') (int z')
               (findTop (int S) g (int x') (int z') (int S - 1)) 0 g)
            (IDX (int S) (int x) y (int z))
         = rd g (IDX (int S) (int x) y (int z))"
proof (rule contiguousLoop_frame)
  fix y' assume y': "0 \<le> y'" "y' \<le> findTop (int S) g (int x') (int z') (int S - 1)"
  then have "y' < int S" using findTop_le [of "int S" g "int x'" "int z'" "int S - 1"] by simp
  then show "IDX (int S) (int x') y' (int z') \<noteq> IDX (int S) (int x) y (int z)"
    using IDX_inject [of "int x'" "int S" "int x" y' y "int z'" "int z"] assms y' by auto
qed

lemma any_column_frame:
  fixes S x z x' z' :: nat
  assumes "x < S" "z < S" "x' < S" "z' < S" "x' = x \<longrightarrow> z' \<noteq> z" "0 \<le> y" "y < int S"
  shows "rd (anyLoop (int S) from to depth (int x') (int z')
               (findTop (int S) g (int x') (int z') (int S - 1)) 0 g)
            (IDX (int S) (int x) y (int z))
         = rd g (IDX (int S) (int x) y (int z))"
proof (rule anyLoop_frame)
  fix y' assume y': "0 \<le> y'" "y' \<le> findTop (int S) g (int x') (int z') (int S - 1)"
  then have "y' < int S" using findTop_le [of "int S" g "int x'" "int z'" "int S - 1"] by simp
  then show "IDX (int S) (int x') y' (int z') \<noteq> IDX (int S) (int x) y (int z)"
    using IDX_inject [of "int x'" "int S" "int x" y' y "int z'" "int z"] assms y' by auto
qed

lemma column_nth:
  "y < S \<Longrightarrow> column S g x z ! y = rd g (IDX (int S) x (int y) z)"
  by (simp add: column_def)

lemma length_column [simp]: "length (column S g x z) = S"
  by (simp add: column_def)

lemma paintPhase_2_3:
  "paintPhase S base 2 3 g
   = replaceTopAny S (Some base) (Block_id Dirt) 3
       (replaceTopContiguous S base (Block_id Grass) 2 g)"
  by (simp add: paintPhase_def ToInt32_small)

lemma paint_column:
  fixes S x z :: nat
  assumes S: "5 \<le> S" and x: "x < S" and z: "z < S"
    and col: "column S g (int x) (int z) = replicate S (Some b)"
    and b: "uint b \<noteq> 0" "uint b \<noteq> 1"
    and y: "0 \<le> y" "y < int S"
  shows "rd (paintPhase S (uint b) 2 3 g) (IDX (int S) (int x) y (int z))
         = (if int S - 2 \<le> y then Some 1 else if int S - 5 \<le> y then Some 2 else Some b)"
proof -
  let ?P0 = "\<lambda>g. \<forall>y. 0 \<le> y \<and> y < int S \<longrightarrow> rd g (IDX (int S) (int x) y (int z)) = Some b"
  let ?P1 = "\<lambda>g. \<forall>y. 0 \<le> y \<and> y < int S \<longrightarrow> rd g (IDX (int S) (int x) y (int z))
               = (if int S - 2 \<le> y then Some 1 else Some b)"
  let ?P2 = "\<lambda>g. \<forall>y. 0 \<le> y \<and> y < int S \<longrightarrow> rd g (IDX (int S) (int x) y (int z))
               = (if int S - 2 \<le> y then Some 1 else if int S - 5 \<le> y then Some 2 else Some b)"
  have p0: "?P0 g"
  proof (intro allI impI)
    fix y assume "0 \<le> y \<and> y < int S"
    then have "nat y < S" "int (nat y) = y" by auto
    with column_nth [of "nat y" S g "int x" "int z"] col
    show "rd g (IDX (int S) (int x) y (int z)) = Some b" by simp
  qed
  have p1: "?P1 (replaceTopContiguous S (uint b) (Block_id Grass) 2 g)"
    unfolding replaceTopContiguous_def
  proof (rule forXZ_column [where Pre = ?P0 and Post = ?P1, OF x z _ _ _ p0])
    fix g assume "?P0 g"
    then show "?P1 (let t = findTop (int S) g (int x) (int z) (int S - 1)
                    in contiguousLoop (int S) (uint b) (Block_id Grass) 2 (int x) (int z) t 0 g)"
      using grass_column [OF S, of g "int x" "int z" b "uint b"] b by simp
  qed (use x z in \<open>simp_all add: contiguous_column_frame Let_def\<close>)
  have p2: "?P2 (replaceTopAny S (Some (uint b)) (Block_id Dirt) 3
                  (replaceTopContiguous S (uint b) (Block_id Grass) 2 g))"
    unfolding replaceTopAny_def
  proof (rule forXZ_column [where Pre = ?P1 and Post = ?P2, OF x z _ _ _ p1 [unfolded replaceTopAny_def]])
    fix g assume "?P1 g"
    then show "?P2 (let t = findTop (int S) g (int x) (int z) (int S - 1)
                    in anyLoop (int S) (Some (uint b)) (Block_id Dirt) 3 (int x) (int z) t 0 g)"
      using dirt_column [OF S, of g "int x" "int z" b "uint b"] b by simp
  qed (use x z in \<open>simp_all add: any_column_frame Let_def\<close>)
  then show ?thesis using y by (simp add: paintPhase_2_3)
qed


section \<open>The painting loop of the client-side generator\<close>

lemma skipEmpty_le: "skipEmpty L sz v x z y \<le> y"
proof (induction L sz v x z y rule: skipEmpty.induct)
  case (1 layout sz voxels x z y)
  show ?case
    by (subst skipEmpty.simps) (use 1 in \<open>auto simp: le_diff_eq\<close>)
qed

lemma skipEmpty_solid:
  "\<not> isEmpty (rd v (layoutIDX L sz x y z)) \<Longrightarrow> skipEmpty L sz v x z y = y"
  by (subst skipEmpty.simps) simp

lemma paintLoop_frame:
  "(\<And>y'. 0 \<le> y' \<Longrightarrow> y' \<le> y \<Longrightarrow> layoutIDX L sz x y' z \<noteq> i)
   \<Longrightarrow> rd (paintLoop L sz from to depth mode x z y replaced v) i = rd v i"
proof (induction L sz "from" to depth mode x z y replaced v rule: paintLoop.induct)
  case (1 layout sz "from" to depth mode x z y replaced voxels)
  let ?i = "layoutIDX layout sz x y z"
  show ?case
  proof (cases "y \<ge> 0 \<and> of_int replaced < depth \<and> \<not> isEmpty (rd voxels ?i)")
    case False
    then show ?thesis
      by (subst paintLoop.simps) (auto simp: Let_def)
  next
    case T: True
    then have w: "rd (wr voxels ?i (u8_of to)) i = rd voxels i"
      using "1.prems" [of y] by (simp add: rd_wr)
    show ?thesis
    proof (cases mode)
      case Mode_contiguous
      show ?thesis
      proof (cases "matches from (rd voxels ?i)")
        case True
        have "rd (paintLoop layout sz from to depth mode x z (y - 1) (replaced + 1)
                   (wr voxels ?i (u8_of to))) i = rd (wr voxels ?i (u8_of to)) i"
          using T True Mode_contiguous "1.prems" by (intro "1.IH"(1)) auto
        then show ?thesis
          using T True Mode_contiguous w by (subst paintLoop.simps) (simp add: Let_def)
      next
        case False
        then show ?thesis
          using T Mode_contiguous by (subst paintLoop.simps) (simp add: Let_def)
      qed
    next
      case Mode_any
      show ?thesis
      proof (cases "matches from (rd voxels ?i)")
        case True
        have "rd (paintLoop layout sz from to depth mode x z (y - 1) (replaced + 1)
                   (wr voxels ?i (u8_of to))) i = rd (wr voxels ?i (u8_of to)) i"
          using T True Mode_any "1.prems" by (intro "1.IH"(2)) auto
        then show ?thesis
          using T True Mode_any w by (subst paintLoop.simps) (simp add: Let_def)
      next
        case False
        have "rd (paintLoop layout sz from to depth mode x z (y - 1) replaced voxels) i
              = rd voxels i"
          using T False Mode_any "1.prems" by (intro "1.IH"(3)) auto
        then show ?thesis
          using T False Mode_any by (subst paintLoop.simps) (simp add: Let_def)
      qed
    qed
  qed
qed

lemma layoutIDX_xyz: "layoutIDX Layout_xyz sz x y z = IDX sz x y z"
  by (simp add: layoutIDX_def IDX_def)

lemma paintLoop_hit:
  "0 \<le> y \<Longrightarrow> of_int replaced < depth \<Longrightarrow> rd v (layoutIDX L sz x y z) = Some b
   \<Longrightarrow> uint b = f \<Longrightarrow> f \<noteq> 0
   \<Longrightarrow> paintLoop L sz (Some f) to depth mode x z y replaced v
       = paintLoop L sz (Some f) to depth mode x z (y - 1) (replaced + 1)
           (wr v (layoutIDX L sz x y z) (u8_of to))"
  by (subst paintLoop.simps)
    (simp add: Let_def same_num_def isEmpty_def matches_def split: PaintMode.splits)

lemma paintLoop_skip:
  "0 \<le> y \<Longrightarrow> of_int replaced < depth \<Longrightarrow> rd v (layoutIDX L sz x y z) = Some b
   \<Longrightarrow> uint b \<noteq> f \<Longrightarrow> uint b \<noteq> 0
   \<Longrightarrow> paintLoop L sz (Some f) to depth Mode_any x z y replaced v
       = paintLoop L sz (Some f) to depth Mode_any x z (y - 1) replaced v"
  by (subst paintLoop.simps)
    (simp add: Let_def same_num_def isEmpty_def matches_def)

lemma paintLoop_stop:
  "\<not> of_int replaced < depth \<Longrightarrow> paintLoop L sz from to depth mode x z y replaced v = v"
  by (subst paintLoop.simps) simp

lemma paint_column_frame:
  fixes S x z x' z' :: nat
  assumes "x < S" "z < S" "x' < S" "z' < S" "x' = x \<longrightarrow> z' \<noteq> z" "0 \<le> y" "y < int S"
  shows "rd (paintColumn Layout_xyz (int S) from to depth mode (int x') (int z') v)
            (IDX (int S) (int x) y (int z))
         = rd v (IDX (int S) (int x) y (int z))"
proof -
  let ?t = "skipEmpty Layout_xyz (int S) v (int x') (int z') (int S - 1)"
  have "rd (paintLoop Layout_xyz (int S) from to depth mode (int x') (int z') ?t 0 v)
          (IDX (int S) (int x) y (int z)) = rd v (IDX (int S) (int x) y (int z))"
  proof (rule paintLoop_frame)
    fix y' assume y': "0 \<le> y'" "y' \<le> ?t"
    then have "y' < int S"
      using skipEmpty_le [of Layout_xyz "int S" v "int x'" "int z'" "int S - 1"] by simp
    then show "layoutIDX Layout_xyz (int S) (int x') y' (int z') \<noteq> IDX (int S) (int x) y (int z)"
      using IDX_inject [of "int x'" "int S" "int x" y' y "int z'" "int z"] assms y'
      by (auto simp: layoutIDX_xyz)
  qed
  then show ?thesis by (simp add: paintColumn_def Let_def)
qed

lemma fallback_grass_column:
  assumes col: "\<And>y. 0 \<le> y \<Longrightarrow> y < 16 \<Longrightarrow> rd v (IDX 16 0 y 0) = Some 3"
    and y: "0 \<le> y" "y < 16"
  shows "rd (paintColumn Layout_xyz 16 (Some 3) 1 2 Mode_contiguous 0 0 v)
            (IDX 16 0 y 0)
         = (if 14 \<le> y then Some 1 else Some 3)"
proof -
  let ?I = "\<lambda>y. layoutIDX Layout_xyz 16 0 y 0"
  have r15: "rd v (?I 15) = Some 3" and r14: "rd v (?I 14) = Some 3"
    using col [of 15] col [of 14] by (simp_all add: layoutIDX_xyz)
  have top: "skipEmpty Layout_xyz 16 v 0 0 15 = 15"
    by (rule skipEmpty_solid) (simp add: r15 isEmpty_def same_num_def)
  let ?v1 = "wr v (?I 15) (u8_of 1)"
  let ?v2 = "wr ?v1 (?I 14) (u8_of 1)"
  have r14': "rd ?v1 (?I 14) = Some 3"
    using r15 r14 by (simp add: rd_wr_in layoutIDX_xyz IDX_def)
  have "paintLoop Layout_xyz 16 (Some 3) 1 2 Mode_contiguous 0 0 15 0 v
        = paintLoop Layout_xyz 16 (Some 3) 1 2 Mode_contiguous 0 0 14 1 ?v1"
    using paintLoop_hit [of 15 0 2 v Layout_xyz 16 0 0 3 3 1 Mode_contiguous] r15 by simp
  also have "\<dots> = paintLoop Layout_xyz 16 (Some 3) 1 2 Mode_contiguous 0 0 13 2 ?v2"
    using paintLoop_hit [of 14 1 2 ?v1 Layout_xyz 16 0 0 3 3 1 Mode_contiguous] r14' by simp
  also have "\<dots> = ?v2"
    by (rule paintLoop_stop) simp
  finally have res: "(paintColumn Layout_xyz 16 (Some 3) 1 2 Mode_contiguous 0 0 v) = ?v2"
    by (simp add: paintColumn_def top)
  have "rd ?v2 (IDX 16 0 y 0) = (if 14 \<le> y then Some 1 else Some 3)"
    using r15 r14' y col [of y]
    by (auto simp: rd_wr_in layoutIDX_xyz IDX_y_inject u8_of_def)
  then show ?thesis by (simp only: res)
qed

lemma fallback_dirt_column:
  assumes col: "\<And>y. 0 \<le> y \<Longrightarrow> y < 16
                  \<Longrightarrow> rd v (IDX 16 0 y 0) = (if 14 \<le> y then Some 1 else Some 3)"
  shows "rd (paintColumn Layout_xyz 16 (Some 3) 2 1 Mode_any 0 0 v)
            (IDX 16 0 12 0) = Some 3"
    and "rd (paintColumn Layout_xyz 16 (Some 3) 2 3 Mode_any 0 0 v)
            (IDX 16 0 12 0) = Some 2"
proof -
  let ?I = "\<lambda>y. layoutIDX Layout_xyz 16 0 y 0"
  have r15: "rd v (?I 15) = Some 1" and r14: "rd v (?I 14) = Some 1"
    and r13: "rd v (?I 13) = Some 3" and r12: "rd v (?I 12) = Some 3"
    and r11: "rd v (?I 11) = Some 3"
    using col [of 15] col [of 14] col [of 13] col [of 12] col [of 11]
    by (simp_all add: layoutIDX_xyz)
  have top: "skipEmpty Layout_xyz 16 v 0 0 15 = 15"
    by (rule skipEmpty_solid) (simp add: r15 isEmpty_def same_num_def)
  let ?v13 = "wr v (?I 13) (u8_of 2)"
  let ?v12 = "wr ?v13 (?I 12) (u8_of 2)"
  let ?v11 = "wr ?v12 (?I 11) (u8_of 2)"
  have r12': "rd ?v13 (?I 12) = Some 3"
    using r13 r12 by (simp add: rd_wr_in layoutIDX_xyz IDX_def)
  have r11': "rd ?v12 (?I 11) = Some 3"
    using r13 r12' r11 by (simp add: rd_wr_in layoutIDX_xyz IDX_def)
  have s15: "paintLoop Layout_xyz 16 (Some 3) 2 d Mode_any 0 0 15 0 v
        = paintLoop Layout_xyz 16 (Some 3) 2 d Mode_any 0 0 13 0 v" if "0 < d" for d
    using paintLoop_skip [of 15 0 d v Layout_xyz 16 0 0 1 3 2] r15
      paintLoop_skip [of 14 0 d v Layout_xyz 16 0 0 1 3 2] r14 that by simp
  have "paintLoop Layout_xyz 16 (Some 3) 2 1 Mode_any 0 0 15 0 v
        = paintLoop Layout_xyz 16 (Some 3) 2 1 Mode_any 0 0 13 0 v"
    by (rule s15) simp
  also have "\<dots> = paintLoop Layout_xyz 16 (Some 3) 2 1 Mode_any 0 0 12 1 ?v13"
    using paintLoop_hit [of 13 0 1 v Layout_xyz 16 0 0 3 3 2 Mode_any] r13 by simp
  also have "\<dots> = ?v13"
    by (rule paintLoop_stop) simp
  finally have res1: "(paintColumn Layout_xyz 16 (Some 3) 2 1 Mode_any 0 0 v) = ?v13"
    by (simp add: paintColumn_def top)
  have "rd ?v13 (IDX 16 0 12 0) = Some 3"
    using r12' by (simp add: layoutIDX_xyz)
  then show "rd (paintColumn Layout_xyz 16 (Some 3) 2 1 Mode_any 0 0 v)
            (IDX 16 0 12 0) = Some 3"
    by (simp only: res1)
  have "paintLoop Layout_xyz 16 (Some 3) 2 3 Mode_any 0 0 15 0 v
        = paintLoop Layout_xyz 16 (Some 3) 2 3 Mode_any 0 0 13 0 v"
    by (rule s15) simp
  also have "\<dots> = paintLoop Layout_xyz 16 (Some 3) 2 3 Mode_any 0 0 12 1 ?v13"
    using paintLoop_hit [of 13 0 3 v Layout_xyz 16 0 0 3 3 2 Mode_any] r13 by simp
  also have "\<dots> = paintLoop Layout_xyz 16 (Some 3) 2 3 Mode_any 0 0 11 2 ?v12"
    using paintLoop_hit [of 12 1 3 ?v13 Layout_xyz 16 0 0 3 3 2 Mode_any] r12' by simp
  also have "\<dots> = paintLoop Layout_xyz 16 (Some 3) 2 3 Mode_any 0 0 10 3 ?v11"
    using paintLoop_hit [of 11 2 3 ?v12 Layout_xyz 16 0 0 3 3 2 Mode_any] r11' by simp
  also have "\<dots> = ?v11"
    by (rule paintLoop_stop) simp
  finally have res3: "(paintColumn Layout_xyz 16 (Some 3) 2 3 Mode_any 0 0 v) = ?v11"
    by (simp add: paintColumn_def top)
  have "rd ?v11 (IDX 16 0 12 0) = Some 2"
    using r13 r12' r11' by (simp add: rd_wr_in layoutIDX_xyz IDX_def u8_of_def)
  then show "rd (paintColumn Layout_xyz 16 (Some 3) 2 3 Mode_any 0 0 v)
            (IDX 16 0 12 0) = Some 2"
    by (simp only: res3)
qed

lemma rd_replicate: "rd (replicate n c) i = (if 0 \<le> i \<and> i < int n then Some c else None)"
  by (auto simp: rd_def)

lemma fallback_after_grass:
  assumes y: "0 \<le> y" "y < 16"
  shows "rd (PaintLayer (generateChunk 16 3) 16 (Some 3) 1 2 Layout_xyz Mode_contiguous)
            (IDX 16 0 y 0) = (if 14 \<le> y then Some 1 else Some 3)"
proof -
  let ?P0 = "\<lambda>v. \<forall>y. 0 \<le> y \<and> y < 16 \<longrightarrow> rd v (IDX 16 (int 0) y (int 0)) = Some 3"
  let ?P1 = "\<lambda>v. \<forall>y. 0 \<le> y \<and> y < 16 \<longrightarrow> rd v (IDX 16 (int 0) y (int 0))
               = (if 14 \<le> y then Some 1 else Some 3)"
  have p0: "?P0 (generateChunk 16 3)"
    by (simp add: generateChunk_def rd_replicate IDX_def u8_of_def)
  have "?P1 (PaintLayer (generateChunk 16 3) 16 (Some 3) 1 2 Layout_xyz Mode_contiguous)"
    unfolding PaintLayer_def
  proof (rule forXZ_column [where Pre = ?P0 and Post = ?P1 and x = 0 and z = 0, OF _ _ _ _ _ p0])
    fix v assume "?P0 v"
    then show "?P1 (paintColumn Layout_xyz (int 16) (Some 3) 1 2 Mode_contiguous (int 0) (int 0) v)"
      using fallback_grass_column [of v] by simp
  next
    fix x' z' :: nat and v
    assume a: "x' < 16" "z' < 16" "(x', z') \<noteq> (0, 0)" and p: "?P0 v"
    show "?P0 (paintColumn Layout_xyz (int 16) (Some 3) 1 2 Mode_contiguous (int x') (int z') v)"
      using paint_column_frame [where x = 0 and S = 16 and z = 0 and x' = x' and z' = z' and v = v
          and ?from = "Some 3" and to = 1 and depth = 2 and mode = Mode_contiguous] a p
      by auto
  next
    fix x' z' :: nat and v
    assume a: "x' < 16" "z' < 16" "(x', z') \<noteq> (0, 0)" and p: "?P1 v"
    show "?P1 (paintColumn Layout_xyz (int 16) (Some 3) 1 2 Mode_contiguous (int x') (int z') v)"
      using paint_column_frame [where x = 0 and S = 16 and z = 0 and x' = x' and z' = z' and v = v
          and ?from = "Some 3" and to = 1 and depth = 2 and mode = Mode_contiguous] a p
      by auto
  qed simp_all
  then show ?thesis using y by simp
qed

lemma fallback_after_dirt:
  assumes v: "\<And>y. 0 \<le> y \<Longrightarrow> y < 16
              \<Longrightarrow> rd v (IDX 16 0 y 0) = (if 14 \<le> y then Some 1 else Some 3)"
  shows "rd (PaintLayer v 16 (Some 3) 2 1 Layout_xyz Mode_any) (IDX 16 0 12 0) = Some 3"
    and "rd (PaintLayer v 16 (Some 3) 2 3 Layout_xyz Mode_any) (IDX 16 0 12 0) = Some 2"
proof -
  let ?P1 = "\<lambda>v. \<forall>y. 0 \<le> y \<and> y < 16 \<longrightarrow> rd v (IDX 16 (int 0) y (int 0))
               = (if 14 \<le> y then Some 1 else Some 3)"
  have p1: "?P1 v" using v by simp
  have frame: "rd (paintColumn Layout_xyz (int 16) (Some 3) 2 d Mode_any (int x') (int z') w) (IDX 16 (int 0) y (int 0))
               = rd w (IDX 16 (int 0) y (int 0))"
    if "x' < 16" "z' < 16" "(x', z') \<noteq> (0, 0)" "0 \<le> y" "y < 16" for x' z' :: nat and w d y
    using paint_column_frame [where x = 0 and S = 16 and z = 0 and x' = x' and z' = z' and y = y
        and v = w and ?from = "Some 3" and to = 2 and depth = d and mode = Mode_any] that
    by auto
  have gen: "rd (PaintLayer v 16 (Some 3) 2 d Layout_xyz Mode_any) (IDX 16 (int 0) 12 (int 0)) = r"
    if hit: "\<And>w. ?P1 w \<Longrightarrow> rd (paintColumn Layout_xyz 16 (Some 3) 2 d Mode_any 0 0 w)
            (IDX 16 0 12 0) = r" for d r
    unfolding PaintLayer_def
  proof (rule forXZ_column [where Pre = ?P1
        and Post = "\<lambda>w. rd w (IDX 16 (int 0) 12 (int 0)) = r" and x = 0 and z = 0, OF _ _ _ _ _ p1])
    fix w assume "?P1 w"
    then show "rd (paintColumn Layout_xyz (int 16) (Some 3) 2 d Mode_any (int 0) (int 0) w) (IDX 16 (int 0) 12 (int 0)) = r"
      using hit [of w] by simp
  next
    fix x' z' :: nat and w
    assume a: "x' < 16" "z' < 16" "(x', z') \<noteq> (0, 0)" and p: "?P1 w"
    show "?P1 (paintColumn Layout_xyz (int 16) (Some 3) 2 d Mode_any (int x') (int z') w)"
      using frame [OF a] p by simp
  next
    fix x' z' :: nat and w
    assume a: "x' < 16" "z' < 16" "(x', z') \<noteq> (0, 0)"
      and p: "rd w (IDX 16 (int 0) 12 (int 0)) = r"
    show "rd (paintColumn Layout_xyz (int 16) (Some 3) 2 d Mode_any (int x') (int z') w) (IDX 16 (int 0) 12 (int 0)) = r"
      using frame [OF a, where y = 12 and w = w and d = d] p by simp
  qed simp_all
  show "rd (PaintLayer v 16 (Some 3) 2 1 Layout_xyz Mode_any) (IDX 16 0 12 0) = Some 3"
    using gen [of 1 "Some 3"] fallback_dirt_column(1) by simp
  show "rd (PaintLayer v 16 (Some 3) 2 3 Layout_xyz Mode_any) (IDX 16 0 12 0) = Some 2"
    using gen [of 3 "Some 2"] fallback_dirt_column(2) by simp
qed

lemma localFallback_voxel:
  "rd (fst (localFallback (\<lambda>n. 0))) (IDX 16 0 12 0) = Some 3"
  "rd (fst (localFallback (\<lambda>n. 1 / 2))) (IDX 16 0 12 0) = Some 2"
  using fallback_after_dirt [OF fallback_after_grass]
  by (simp_all add: localFallback_def Math_random_def CHUNK_def BASE_BLOCK_def Let_def)


section \<open>Decimal rendering and parsing: basic facts\<close>

lemma digit_code_less: "(d::nat) < 10 \<Longrightarrow> 48 + d < 256"
  by linarith

lemma digit_code_mod: "(d::nat) < 10 \<Longrightarrow> (48 + d) mod 256 = 48 + d"
  by (rule mod_less) (rule digit_code_less)

lemma of_char_char_of_digit: "(of_char (char_of (48 + d)) :: nat) = (48 + d) mod 256"
  by (rule of_char_of)

lemma of_char_digit_char: "d < 10 \<Longrightarrow> (of_char (digit_char d) :: nat) = 48 + d"
  unfolding digit_char_def of_char_char_of_digit by (rule digit_code_mod)

lemma digit_char_inj:
  assumes a: "a < 10" and b: "b < 10" and e: "digit_char a = digit_char b"
  shows "a = b"
proof -
  have "48 + a = (of_char (digit_char a) :: nat)"
    by (rule of_char_digit_char [OF a, symmetric])
  also have "\<dots> = of_char (digit_char b)" by (simp only: e)
  also have "\<dots> = 48 + b" by (rule of_char_digit_char [OF b])
  finally show ?thesis by linarith
qed

lemma is_digit_digit_char: "d < 10 \<Longrightarrow> is_digit (digit_char d)"
  unfolding is_digit_def by (simp only: of_char_digit_char) linarith

lemma digits_neq_Nil: "digits n \<noteq> []"
  by (subst digits.simps) simp

lemma digits_all_digit: "c \<in> set (digits n) \<Longrightarrow> is_digit c"
proof (induction n rule: digits.induct)
  case (1 n)
  show ?case
  proof (cases "n < 10")
    case True
    with "1.prems" show ?thesis
      by (subst (asm) digits.simps) (simp add: is_digit_digit_char)
  next
    case False
    with "1.prems" have "c \<in> set (digits (n div 10)) \<or> c = digit_char (n mod 10)"
      by (subst (asm) digits.simps) auto
    then show ?thesis
      using "1.IH" False by (auto simp: is_digit_digit_char)
  qed
qed

lemma digits_inj: "digits m = digits n \<Longrightarrow> m = n"
proof (induction m arbitrary: n rule: digits.induct)
  case (1 m)
  show ?case
  proof (cases "m < 10")
    case m: True
    show ?thesis
    proof (cases "n < 10")
      case True
      with m "1.prems" show ?thesis
        by (subst (asm) digits.simps, subst (asm) (2) digits.simps)
          (simp add: digit_char_inj)
    next
      case False
      with m "1.prems" have "[digit_char m] = digits (n div 10) @ [digit_char (n mod 10)]"
        by (subst (asm) digits.simps, subst (asm) (2) digits.simps) simp
      then show ?thesis using digits_neq_Nil [of "n div 10"] by simp
    qed
  next
    case m: False
    show ?thesis
    proof (cases "n < 10")
      case True
      with m "1.prems" have "digits (m div 10) @ [digit_char (m mod 10)] = [digit_char n]"
        by (subst (asm) digits.simps, subst (asm) (2) digits.simps) simp
      then show ?thesis using digits_neq_Nil [of "m div 10"] by simp
    next
      case False
      with m "1.prems" have "digits (m div 10) @ [digit_char (m mod 10)]
          = digits (n div 10) @ [digit_char (n mod 10)]"
        by (subst (asm) digits.simps, subst (asm) (2) digits.simps) simp
      then have d: "digits (m div 10) = digits (n div 10)"
        and c: "digit_char (m mod 10) = digit_char (n mod 10)" by simp_all
      have "m div 10 = n div 10" by (rule "1.IH" [OF m d])
      moreover from c have "m mod 10 = n mod 10" by (rule digit_char_inj [rotated 2]) simp_all
      ultimately show ?thesis by (metis div_mult_mod_eq)
    qed
  qed
qed

lemma parse_digits_digits:
  "parse_digits acc (digits n @ r) = parse_digits (acc * 10 ^ length (digits n) + n) r"
proof (induction n arbitrary: acc r rule: digits.induct)
  case (1 n)
  show ?case
  proof (cases "n < 10")
    case True
    then have "digits n = [digit_char n]" by (subst digits.simps) simp
    then show ?thesis using True by (simp add: is_digit_digit_char of_char_digit_char)
  next
    case False
    then have e: "digits n = digits (n div 10) @ [digit_char (n mod 10)]"
      by (subst digits.simps) simp
    have "parse_digits acc (digits n @ r)
          = parse_digits acc (digits (n div 10) @ (digit_char (n mod 10) # r))"
      by (simp add: e)
    also have "\<dots> = parse_digits (acc * 10 ^ length (digits (n div 10)) + n div 10)
                        (digit_char (n mod 10) # r)"
      using False by (rule "1.IH")
    also have "\<dots> = parse_digits ((acc * 10 ^ length (digits (n div 10)) + n div 10) * 10
                        + n mod 10) r"
      by (simp add: is_digit_digit_char of_char_digit_char)
    also have "(acc * 10 ^ length (digits (n div 10)) + n div 10) * 10 + n mod 10
               = acc * 10 ^ length (digits n) + n"
      by (simp add: e algebra_simps)
    finally show ?thesis .
  qed
qed

lemma parse_digits_roundtrip: "parse_digits 0 (digits n) = n"
  using parse_digits_digits [of 0 n "[]"] by simp

lemma minus_not_digit: "\<not> is_digit CHR ''-''" "\<not> is_digit CHR '',''" "\<not> is_digit CHR ''/''"
  "\<not> is_digit CHR ''+''"
  by (simp_all add: is_digit_def)

lemma digit_not_space: "is_digit c \<Longrightarrow> \<not> is_space c"
  by (auto simp: is_digit_def is_space_def)

lemma show_int_chars: "c \<in> set (show_int n) \<Longrightarrow> is_digit c \<or> c = CHR ''-''"
  by (auto simp: show_int_def dest: digits_all_digit split: if_splits)

lemma show_int_inj: "show_int m = show_int n \<Longrightarrow> m = n"
proof -
  have hd: "hd (digits k) \<noteq> CHR ''-''" for k
    using digits_all_digit [of "hd (digits k)" k] digits_neq_Nil [of k] minus_not_digit
    by (cases "digits k") auto
  assume a: "show_int m = show_int n"
  consider "m < 0" "n < 0" | "m < 0" "\<not> n < 0" | "\<not> m < 0" "n < 0" | "\<not> m < 0" "\<not> n < 0"
    by blast
  then show ?thesis
  proof cases
    case 1
    with a have "digits (nat (- m)) = digits (nat (- n))" by (simp add: show_int_def)
    then have "nat (- m) = nat (- n)" by (rule digits_inj)
    with 1 show ?thesis by simp
  next
    case 2
    with a have "CHR ''-'' # digits (nat (- m)) = digits (nat n)" by (simp add: show_int_def)
    then have "hd (digits (nat n)) = CHR ''-''" by (metis list.sel(1))
    with hd show ?thesis by simp
  next
    case 3
    with a have "digits (nat m) = CHR ''-'' # digits (nat (- n))" by (simp add: show_int_def)
    then have "hd (digits (nat m)) = CHR ''-''" by (metis list.sel(1))
    with hd show ?thesis by simp
  next
    case 4
    with a have "digits (nat m) = digits (nat n)" by (simp add: show_int_def)
    then have "nat m = nat n" by (rule digits_inj)
    with 4 show ?thesis by simp
  qed
qed

lemma parseInt_show_int: "parseInt (show_int n) = Some n"
proof -
  obtain c cs where d: "digits (nat \<bar>n\<bar>) = c # cs"
    using digits_neq_Nil [of "nat \<bar>n\<bar>"] by (cases "digits (nat \<bar>n\<bar>)") auto
  then have c: "is_digit c" using digits_all_digit [of c "nat \<bar>n\<bar>"] by simp
  then have c': "\<not> is_space c" "c \<noteq> CHR ''-''" "c \<noteq> CHR ''+''"
    using digit_not_space minus_not_digit by auto
  have p: "parse_digits 0 (c # cs) = nat \<bar>n\<bar>"
    using parse_digits_roundtrip [of "nat \<bar>n\<bar>"] d by simp
  show ?thesis
  proof (cases "n < 0")
    case True
    then have "show_int n = CHR ''-'' # c # cs" using d by (simp add: show_int_def abs_if)
    moreover have "\<not> is_space CHR ''-''" by (simp add: is_space_def)
    ultimately show ?thesis
      using c c' p True by (simp add: parseInt_def del: parse_digits.simps)
  next
    case False
    then have "show_int n = c # cs" using d by (simp add: show_int_def abs_if)
    then show ?thesis
      using c c' p False by (simp add: parseInt_def del: parse_digits.simps)
  qed
qed

lemma splitOn_no_sep: "c \<notin> set xs \<Longrightarrow> splitOn c xs = [xs]"
  by (induction xs) auto

lemma splitOn_append: "c \<notin> set xs \<Longrightarrow> splitOn c (xs @ c # ys) = xs # splitOn c ys"
  by (induction xs) auto

lemma comma_notin_show_int: "CHR '','' \<notin> set (show_int n)" "CHR ''/'' \<notin> set (show_int n)"
  using show_int_chars [of "CHR '',''" n] show_int_chars [of "CHR ''/''" n] minus_not_digit
  by auto

lemma split_keyOf_xz:
  "map parseInt (splitOn (CHR '','') (keyOf_xz gx gz)) = [Some gx, Some gz]"
  by (simp add: keyOf_xz_def splitOn_append splitOn_no_sep comma_notin_show_int
      parseInt_show_int)

lemma keyOf_xz_inj: "keyOf_xz a b = keyOf_xz c d \<Longrightarrow> a = c \<and> b = d"
proof -
  assume "keyOf_xz a b = keyOf_xz c d"
  then have "map parseInt (splitOn (CHR '','') (keyOf_xz a b))
             = map parseInt (splitOn (CHR '','') (keyOf_xz c d))" by simp
  then show ?thesis by (simp only: split_keyOf_xz) simp
qed

lemma append_sep_eq:
  assumes "c \<notin> set xs" "c \<notin> set xs'" "xs @ c # ys = xs' @ c # ys'"
  shows "xs = xs' \<and> ys = ys'"
proof -
  have "takeWhile (\<lambda>x. x \<noteq> c) (xs @ c # ys) = xs" "takeWhile (\<lambda>x. x \<noteq> c) (xs' @ c # ys') = xs'"
    using assms(1,2) by (auto simp: takeWhile_tail)
  with assms(3) have "xs = xs'" by simp
  with assms(3) show ?thesis by simp
qed

lemma show_fraction_inj: "inj show_fraction"
proof (rule injI)
  fix p q assume e: "show_fraction p = show_fraction q"
  obtain a b where p: "quotient_of p = (a, b)" by (cases "quotient_of p")
  obtain c d where q: "quotient_of q = (c, d)" by (cases "quotient_of q")
  from e p q have "show_int a @ CHR ''/'' # show_int b = show_int c @ CHR ''/'' # show_int d"
    by (simp add: show_fraction_def)
  then have "show_int a = show_int c \<and> show_int b = show_int d"
    by (rule append_sep_eq [rotated 2]) (simp_all add: comma_notin_show_int)
  then have "a = c" "b = d" by (auto dest: show_int_inj)
  with p q have "quotient_of p = quotient_of q" by simp
  then show "p = q" by (rule quotient_of_inject)
qed

section \<open>Parameters that differ in one field\<close>

lemma one_field_cases:
  assumes "differing_fields p q = 1"
  shows "(size_p p \<noteq> size_p q \<and> seed_p p = seed_p q \<and> base_p p = base_p q \<and> cx_p p = cx_p q
          \<and> cy_p p = cy_p q \<and> cz_p p = cz_p q \<and> surfaceScale_p p = surfaceScale_p q
          \<and> cavesScale_p p = cavesScale_p q \<and> cavesThreshold_p p = cavesThreshold_p q
          \<and> grassDepth_p p = grassDepth_p q \<and> dirtDepth_p p = dirtDepth_p q)
       \<or> (size_p p = size_p q \<and> seed_p p \<noteq> seed_p q \<and> base_p p = base_p q \<and> cx_p p = cx_p q
          \<and> cy_p p = cy_p q \<and> cz_p p = cz_p q \<and> surfaceScale_p p = surfaceScale_p q
          \<and> cavesScale_p p = cavesScale_p q \<and> cavesThreshold_p p = cavesThreshold_p q
          \<and> grassDepth_p p = grassDepth_p q \<and> dirtDepth_p p = dirtDepth_p q)
       \<or> (size_p p = size_p q \<and> seed_p p = seed_p q \<and> base_p p \<noteq> base_p q \<and> cx_p p = cx_p q
          \<and> cy_p p = cy_p q \<and> cz_p p = cz_p q \<and> surfaceScale_p p = surfaceScale_p q
          \<and> cavesScale_p p = cavesScale_p q \<and> cavesThreshold_p p = cavesThreshold_p q
          \<and> grassDepth_p p = grassDepth_p q \<and> dirtDepth_p p = dirtDepth_p q)
       \<or> (size_p p = size_p q \<and> seed_p p = seed_p q \<and> base_p p = base_p q \<and> cx_p p \<noteq> cx_p q
          \<and> cy_p p = cy_p q \<and> cz_p p = cz_p q \<and> surfaceScale_p p = surfaceScale_p q
          \<and> cavesScale_p p = cavesScale_p q \<and> cavesThreshold_p p = cavesThreshold_p q
          \<and> grassDepth_p p = grassDepth_p q \<and> dirtDepth_p p = dirtDepth_p q)
       \<or> (size_p p = size_p q \<and> seed_p p = seed_p q \<and> base_p p = base_p q \<and> cx_p p = cx_p q
          \<and> cy_p p \<noteq> cy_p q \<and> cz_p p = cz_p q \<and> surfaceScale_p p = surfaceScale_p q
          \<and> cavesScale_p p = cavesScale_p q \<and> cavesThreshold_p p = cavesThreshold_p q
          \<and> grassDepth_p p = grassDepth_p q \<and> dirtDepth_p p = dirtDepth_p q)
       \<or> (size_p p = size_p q \<and> seed_p p = seed_p q \<and> base_p p = base_p q \<and> cx_p p = cx_p q
          \<and> cy_p p = cy_p q \<and> cz_p p \<noteq> cz_p q \<and> surfaceScale_p p = surfaceScale_p q
          \<and> cavesScale_p p = cavesScale_p q \<and> cavesThreshold_p p = cavesThreshold_p q
          \<and> grassDepth_p p = grassDepth_p q \<and> dirtDepth_p p = dirtDepth_p q)
       \<or> (size_p p = size_p q \<and> seed_p p = seed_p q \<and> base_p p = base_p q \<and> cx_p p = cx_p q
          \<and> cy_p p = cy_p q \<and> cz_p p = cz_p q \<and> surfaceScale_p p \<noteq> surfaceScale_p q
          \<and> cavesScale_p p = cavesScale_p q \<and> cavesThreshold_p p = cavesThreshold_p q
          \<and> grassDepth_p p = grassDepth_p q \<and> dirtDepth_p p = dirtDepth_p q)
       \<or> (size_p p = size_p q \<and> seed_p p = seed_p q \<and> base_p p = base_p q \<and> cx_p p = cx_p q
          \<and> cy_p p = cy_p q \<and> cz_p p = cz_p q \<and> surfaceScale_p p = surfaceScale_p q
          \<and> cavesScale_p p \<noteq> cavesScale_p q \<and> cavesThreshold_p p = cavesThreshold_p q
          \<and> grassDepth_p p = grassDepth_p q \<and> dirtDepth_p p = dirtDepth_p q)
       \<or> (size_p p = size_p q \<and> seed_p p = seed_p q \<and> base_p p = base_p q \<and> cx_p p = cx_p q
          \<and> cy_p p = cy_p q \<and> cz_p p = cz_p q \<and> surfaceScale_p p = surfaceScale_p q
          \<and> cavesScale_p p = cavesScale_p q \<and> cavesThreshold_p p \<noteq> cavesThreshold_p q
          \<and> grassDepth_p p = grassDepth_p q \<and> dirtDepth_p p = dirtDepth_p q)
       \<or> (size_p p = size_p q \<and> seed_p p = seed_p q \<and> base_p p = base_p q \<and> cx_p p = cx_p q
          \<and> cy_p p = cy_p q \<and> cz_p p = cz_p q \<and> surfaceScale_p p = surfaceScale_p q
          \<and> cavesScale_p p = cavesScale_p q \<and> cavesThreshold_p p = cavesThreshold_p q
          \<and> grassDepth_p p \<noteq> grassDepth_p q \<and> dirtDepth_p p = dirtDepth_p q)
       \<or> (size_p p = size_p q \<and> seed_p p = seed_p q \<and> base_p p = base_p q \<and> cx_p p = cx_p q
          \<and> cy_p p = cy_p q \<and> cz_p p = cz_p q \<and> surfaceScale_p p = surfaceScale_p q
          \<and> cavesScale_p p = cavesScale_p q \<and> cavesThreshold_p p = cavesThreshold_p q
          \<and> grassDepth_p p = grassDepth_p q \<and> dirtDepth_p p \<noteq> dirtDepth_p q)"
  using assms unfolding differing_fields_def
  by (simp split: if_splits)


section \<open>The stream manager: basic facts\<close>

lemma loaded_finallyBranch [simp]: "loaded (finallyBranch i t m) = loaded m"
  by (simp add: finallyBranch_def)

lemma disposed_finallyBranch [simp]: "disposed (finallyBranch i t m) = disposed m"
  by (simp add: finallyBranch_def)

lemma inflight_finallyBranch [simp]:
  "inflight (finallyBranch i t m) = inflight m - {task_key t}"
  by (simp add: finallyBranch_def)

lemma loaded_admit: "map_of (loaded (admit t g m)) (task_key t) \<noteq> None"
  by (simp add: admit_def Let_def update_conv')

lemma catchBranch_disposed:
  "disposed m \<Longrightarrow> loaded (catchBranch t m) = loaded m \<and> disposed (catchBranch t m)
     \<and> worldGroup (catchBranch t m) = worldGroup m"
  by (simp add: catchBranch_def Let_def split_def)

lemma catchBranch_resident:
  "\<not> disposed m \<Longrightarrow> map_of (loaded (catchBranch t m)) (task_key t) \<noteq> None"
  by (simp add: catchBranch_def Let_def split_def loaded_admit)

lemma tryRest_disposed: "disposed m \<Longrightarrow> tryRest t grid m = m"
  by (simp add: tryRest_def)

lemma loadChunkAt_disposed: "disposed m \<Longrightarrow> loadChunkAt cx cz m = m"
  by (simp add: loadChunkAt_def)

lemma resumeFetch_disposed:
  "disposed m \<Longrightarrow> loaded (resumeFetch i res m) = loaded m \<and> disposed (resumeFetch i res m)"
  by (auto simp: resumeFetch_def Let_def catchBranch_disposed
      split: FetchResult.splits bool.splits)

lemma resumeBody_disposed:
  "disposed m \<Longrightarrow> loaded (resumeBody i res m) = loaded m \<and> disposed (resumeBody i res m)"
  by (auto simp: resumeBody_def Let_def catchBranch_disposed tryRest_disposed
      split: BodyResult.splits)

lemma fold_id: "(\<And>a s. a \<in> set xs \<Longrightarrow> f a s = s) \<Longrightarrow> fold f xs s = s"
  by (induction xs) auto

lemma evictEntry_fields [simp]:
  "disposed (evictEntry cx cz e m) = disposed m"
  "inflight (evictEntry cx cz e m) = inflight m"
  "suspended (evictEntry cx cz e m) = suspended m"
  "fetches (evictEntry cx cz e m) = fetches m"
  "rnd (evictEntry cx cz e m) = rnd m"
  "disposals (evictEntry cx cz e m) = disposals m"
  by (simp_all add: evictEntry_def Let_def split_def disposeObject_def)

lemma fold_evictEntry_fields [simp]:
  "disposed (fold (evictEntry cx cz) es m) = disposed m"
  "inflight (fold (evictEntry cx cz) es m) = inflight m"
  "suspended (fold (evictEntry cx cz) es m) = suspended m"
  "fetches (fold (evictEntry cx cz) es m) = fetches m"
  "rnd (fold (evictEntry cx cz) es m) = rnd m"
  "disposals (fold (evictEntry cx cz) es m) = disposals m"
  by (induction es arbitrary: m) simp_all

lemma ensureChunksAround_disposed:
  assumes "disposed m"
  shows "ensureChunksAround cx cz m = fold (evictEntry cx cz) (loaded m) m"
proof -
  have "fold (\<lambda>dz m. fold (\<lambda>dx m. loadChunkAt (cx + dx) (cz + dz) m)
                      [- VIEW_RADIUS..VIEW_RADIUS] m) [- VIEW_RADIUS..VIEW_RADIUS] m = m"
    by (intro fold_inv [where I = "\<lambda>s. s = m"])
      (simp_all add: loadChunkAt_disposed assms)
  then show ?thesis by (simp add: ensureChunksAround_def)
qed

lemma loadChunkAt_fields [simp]:
  "loaded (loadChunkAt a b m) = loaded m"
  "disposed (loadChunkAt a b m) = disposed m"
  "worldGroup (loadChunkAt a b m) = worldGroup m"
  "disposals (loadChunkAt a b m) = disposals m"
  by (simp_all add: loadChunkAt_def Let_def)

lemma loads_fields:
  "loaded (fold (\<lambda>dz m. fold (\<lambda>dx m. loadChunkAt (cx + dx) (cz + dz) m) xs m) ys m) = loaded m
   \<and> disposals (fold (\<lambda>dz m. fold (\<lambda>dx m. loadChunkAt (cx + dx) (cz + dz) m) xs m) ys m)
       = disposals m
   \<and> disposed (fold (\<lambda>dz m. fold (\<lambda>dx m. loadChunkAt (cx + dx) (cz + dz) m) xs m) ys m)
       = disposed m"
  by (rule fold_inv [where I = "\<lambda>s. loaded s = loaded m \<and> disposals s = disposals m
        \<and> disposed s = disposed m"], rule fold_inv) simp_all

lemma tooFar_keyOf_xz:
  "tooFar cx cz (keyOf_xz gx gz)
   \<longleftrightarrow> \<bar>gx - cx\<bar> > VIEW_RADIUS + 1 \<or> \<bar>gz - cz\<bar> > VIEW_RADIUS + 1"
  by (simp add: tooFar_def split_keyOf_xz far_def)

lemma evictEntry_loaded:
  "map_of (loaded (evictEntry cx cz (k', g') m)) k
   = (if k = k' \<and> tooFar cx cz k' then None else map_of (loaded m) k)"
  by (simp add: evictEntry_def delete_conv')

lemma evict_fold_loaded:
  "map_of (loaded (fold (evictEntry cx cz) es m)) k
   = (if k \<in> fst ` set es \<and> tooFar cx cz k then None else map_of (loaded m) k)"
proof (induction es arbitrary: m)
  case Nil
  then show ?case by simp
next
  case (Cons e es)
  obtain k' g' where e: "e = (k', g')" by (cases e)
  have "map_of (loaded (fold (evictEntry cx cz) (e # es) m)) k
        = (if k \<in> fst ` set es \<and> tooFar cx cz k then None
           else map_of (loaded (evictEntry cx cz (k', g') m)) k)"
    by (simp add: Cons.IH e)
  also have "\<dots> = (if k \<in> fst ` set (e # es) \<and> tooFar cx cz k then None
                     else map_of (loaded m) k)"
    by (auto simp: evictEntry_loaded e)
  finally show ?case .
qed

lemma ensureChunksAround_loaded:
  "map_of (loaded (ensureChunksAround cx cz m)) k
   = (if tooFar cx cz k then None else map_of (loaded m) k)"
proof -
  let ?m1 = "fold (\<lambda>dz m. fold (\<lambda>dx m. loadChunkAt (cx + dx) (cz + dz) m)
                      [- VIEW_RADIUS..VIEW_RADIUS] m) [- VIEW_RADIUS..VIEW_RADIUS] m"
  have l: "loaded ?m1 = loaded m" using loads_fields by blast
  have "map_of (loaded (ensureChunksAround cx cz m)) k
        = (if k \<in> fst ` set (loaded m) \<and> tooFar cx cz k then None else map_of (loaded m) k)"
    by (simp add: ensureChunksAround_def evict_fold_loaded l)
  also have "\<dots> = (if tooFar cx cz k then None else map_of (loaded m) k)"
    by (auto simp: map_of_eq_None_iff)
  finally show ?thesis .
qed

lemma ensureChunksAround_disposals:
  "disposals (ensureChunksAround cx cz m) = disposals m"
  using loads_fields [of cx cz "[- VIEW_RADIUS..VIEW_RADIUS]" "[- VIEW_RADIUS..VIEW_RADIUS]" m]
  by (simp add: ensureChunksAround_def)


lemma bookkeeping_initial: "bookkeeping (initial r)"
  by (simp add: bookkeeping_def initial_def)

lemma bookkeeping_cong:
  "suspended m' = suspended m \<Longrightarrow> inflight m' = inflight m \<Longrightarrow> bookkeeping m
   \<Longrightarrow> bookkeeping m'"
  by (simp add: bookkeeping_def)

lemma bookkeeping_loadChunkAt: "bookkeeping m \<Longrightarrow> bookkeeping (loadChunkAt a b m)"
  by (auto simp: bookkeeping_def loadChunkAt_def Let_def)

lemma catchBranch_fields [simp]:
  "suspended (catchBranch t m) = suspended m" "inflight (catchBranch t m) = inflight m"
  by (simp_all add: catchBranch_def admit_def Let_def split_def)

lemma tryRest_fields [simp]:
  "suspended (tryRest t grid m) = suspended m" "inflight (tryRest t grid m) = inflight m"
  by (simp_all add: tryRest_def admit_def Let_def)

lemma distinct_map_remove_nth:
  assumes "distinct (map f xs)" "i < length xs"
  shows "distinct (map f (take i xs @ drop (Suc i) xs))"
    and "set (map f (take i xs @ drop (Suc i) xs)) = set (map f xs) - {f (xs ! i)}"
proof -
  have xs: "xs = take i xs @ xs ! i # drop (Suc i) xs"
    using assms(2) by (rule id_take_nth_drop)
  then have d: "distinct (map f (take i xs) @ f (xs ! i) # map f (drop (Suc i) xs))"
    using assms(1) by (metis list.simps(9) map_append)
  then show "distinct (map f (take i xs @ drop (Suc i) xs))" by auto
  from d have "f (xs ! i) \<notin> set (map f (take i xs @ drop (Suc i) xs))" by auto
  moreover have "set (map f xs)
      = insert (f (xs ! i)) (set (map f (take i xs @ drop (Suc i) xs)))"
    by (subst xs) (simp del: append_take_drop_id)
  ultimately show "set (map f (take i xs @ drop (Suc i) xs)) = set (map f xs) - {f (xs ! i)}"
    by auto
qed

lemma bookkeeping_finallyBranch:
  assumes "bookkeeping m" "i < length (suspended m)"
    and "suspended m' = suspended m" "inflight m' = inflight m"
  shows "bookkeeping (finallyBranch i (suspended m ! i) m')"
proof -
  have d: "distinct (map task_key (suspended m))"
    and s: "set (map task_key (suspended m)) = inflight m"
    and k: "\<forall>t \<in> set (suspended m). keyOf_xz (task_cx t) (task_cz t) = task_key t"
    using assms(1) by (simp_all add: bookkeeping_def)
  have "set (take i (suspended m) @ drop (Suc i) (suspended m)) \<subseteq> set (suspended m)"
    by (auto dest: in_set_takeD in_set_dropD)
  with k have "\<forall>t \<in> set (take i (suspended m) @ drop (Suc i) (suspended m)).
      keyOf_xz (task_cx t) (task_cz t) = task_key t" by blast
  then show ?thesis
    using distinct_map_remove_nth [OF d assms(2)] s assms(3,4)
    by (simp add: bookkeeping_def finallyBranch_def)
qed

lemma bookkeeping_resumeFetch: "bookkeeping m \<Longrightarrow> bookkeeping (resumeFetch i res m)"
proof -
  assume b: "bookkeeping m"
  show ?thesis
  proof (cases "i < length (suspended m) \<and> stage (suspended m ! i) = AwaitFetch")
    case False
    then show ?thesis using b by (auto simp: resumeFetch_def)
  next
    case True
    then have i: "i < length (suspended m)" by simp
    let ?t = "suspended m ! i"
    show ?thesis
    proof (cases "res = Response True")
      case r: True
      have "map task_key ((suspended m)[i := Task (task_key ?t) (task_cx ?t) (task_cz ?t) AwaitBody])
            = map task_key (suspended m)"
        using i by (simp add: map_update list_update_same_conv)
      moreover have "\<forall>t \<in> set ((suspended m)[i := Task (task_key ?t) (task_cx ?t) (task_cz ?t)
          AwaitBody]). keyOf_xz (task_cx t) (task_cz t) = task_key t"
        using b i by (auto simp: bookkeeping_def dest!: set_update_subset_insert [THEN subsetD])
      ultimately show ?thesis
        using b True r by (simp add: resumeFetch_def bookkeeping_def Let_def)
    next
      case False
      have "bookkeeping (finallyBranch i ?t (catchBranch ?t m))"
        by (rule bookkeeping_finallyBranch [OF b i]) simp_all
      then show ?thesis
        using True False
        by (auto simp: resumeFetch_def Let_def split: FetchResult.splits bool.splits)
    qed
  qed
qed

lemma bookkeeping_resumeBody: "bookkeeping m \<Longrightarrow> bookkeeping (resumeBody i res m)"
proof -
  assume b: "bookkeeping m"
  show ?thesis
  proof (cases "i < length (suspended m) \<and> stage (suspended m ! i) = AwaitBody")
    case False
    then show ?thesis using b by (auto simp: resumeBody_def)
  next
    case True
    then have i: "i < length (suspended m)" by simp
    let ?t = "suspended m ! i"
    have "bookkeeping (finallyBranch i ?t (catchBranch ?t m))"
      by (rule bookkeeping_finallyBranch [OF b i]) simp_all
    moreover have "bookkeeping (finallyBranch i ?t (tryRest ?t grid m))" for grid
      by (rule bookkeeping_finallyBranch [OF b i]) simp_all
    ultimately show ?thesis
      using True by (auto simp: resumeBody_def Let_def split: BodyResult.splits)
  qed
qed

lemma bookkeeping_ensureChunksAround:
  "bookkeeping m \<Longrightarrow> bookkeeping (ensureChunksAround cx cz m)"
proof -
  assume b: "bookkeeping m"
  let ?m1 = "fold (\<lambda>dz m. fold (\<lambda>dx m. loadChunkAt (cx + dx) (cz + dz) m)
                      [- VIEW_RADIUS..VIEW_RADIUS] m) [- VIEW_RADIUS..VIEW_RADIUS] m"
  have "bookkeeping ?m1"
    by (rule fold_inv [where I = bookkeeping], rule fold_inv [where I = bookkeeping])
      (simp_all add: bookkeeping_loadChunkAt b)
  then show ?thesis
    by (rule bookkeeping_cong [rotated 2]) (simp_all add: ensureChunksAround_def Let_def)
qed

lemma bookkeeping_cleanup: "bookkeeping m \<Longrightarrow> bookkeeping (cleanup m)"
  by (simp add: bookkeeping_def cleanup_def Let_def)

lemma bookkeeping_step: "bookkeeping m \<Longrightarrow> bookkeeping (step ev m)"
  by (cases ev)
    (simp_all add: bookkeeping_ensureChunksAround bookkeeping_resumeFetch
      bookkeeping_resumeBody bookkeeping_cleanup)

lemma bookkeeping_run: "bookkeeping m \<Longrightarrow> bookkeeping (run evs m)"
  unfolding run_def by (rule fold_inv [where I = bookkeeping]) (simp_all add: bookkeeping_step)

lemma filter_key_le_one:
  "distinct (map f xs) \<Longrightarrow> length (filter (\<lambda>x. f x = k) xs) \<le> 1"
proof (induction xs)
  case Nil
  then show ?case by simp
next
  case (Cons x xs)
  show ?case
  proof (cases "f x = k")
    case True
    then have "k \<notin> f ` set xs" using Cons.prems by auto
    then have "filter (\<lambda>x. f x = k) xs = []" by (auto simp: filter_empty_conv)
    then show ?thesis using True by simp
  next
    case False
    then show ?thesis using Cons by simp
  qed
qed

lemma one_load_per_coordinate:
  assumes "bookkeeping m"
  shows "length (filter (\<lambda>t. task_cx t = cx \<and> task_cz t = cz) (suspended m)) \<le> 1"
proof -
  have "filter (\<lambda>t. task_cx t = cx \<and> task_cz t = cz) (suspended m)
        = filter (\<lambda>t. task_cx t = cx \<and> task_cz t = cz)
            (filter (\<lambda>t. task_key t = keyOf_xz cx cz) (suspended m))"
    using assms by (auto simp: bookkeeping_def intro!: filter_cong)
  then have "length (filter (\<lambda>t. task_cx t = cx \<and> task_cz t = cz) (suspended m))
        \<le> length (filter (\<lambda>t. task_key t = keyOf_xz cx cz) (suspended m))"
    by (metis length_filter_le)
  also have "\<dots> \<le> 1"
    using assms by (intro filter_key_le_one) (simp add: bookkeeping_def)
  finally show ?thesis .
qed

lemma loadChunkAt_covered_id: "covered m (keyOf_xz a b) \<Longrightarrow> loadChunkAt a b m = m"
  by (auto simp: covered_def loadChunkAt_def)

lemma loadChunkAt_covers: "covered (loadChunkAt a b m) (keyOf_xz a b)"
  by (auto simp: covered_def loadChunkAt_def Let_def)

lemma loadChunkAt_covered_mono: "covered m k \<Longrightarrow> covered (loadChunkAt a b m) k"
  by (auto simp: covered_def loadChunkAt_def Let_def)

lemma fold_establish:
  assumes "\<And>a s. a \<in> set xs \<Longrightarrow> P a (f a s)"
    and "\<And>a b s. b \<in> set xs \<Longrightarrow> P a s \<Longrightarrow> P a (f b s)"
    and "a \<in> set xs"
  shows "P a (fold f xs s)"
  using assms
proof (induction xs arbitrary: s)
  case Nil
  then show ?case by simp
next
  case (Cons b xs)
  show ?case
  proof (cases "a \<in> set xs")
    case True
    then show ?thesis using Cons by simp
  next
    case False
    then have "a = b" using Cons.prems(3) by simp
    then have "P a (f b s)" using Cons.prems(1) by simp
    then have "P a (fold f xs (f b s))"
      by (rule fold_inv [rotated]) (use Cons.prems(2) in auto)
    then show ?thesis by simp
  qed
qed

lemma loads_cover:
  assumes "dx \<in> set xs" "dz \<in> set ys"
  shows "covered (fold (\<lambda>dz m. fold (\<lambda>dx m. loadChunkAt (cx + dx) (cz + dz) m) xs m) ys m)
           (keyOf_xz (cx + dx) (cz + dz))"
proof (rule fold_establish [where P = "\<lambda>dz s. covered s (keyOf_xz (cx + dx) (cz + dz))",
      OF _ _ assms(2)])
  fix a s assume "a \<in> set ys"
  show "covered (fold (\<lambda>dx m. loadChunkAt (cx + dx) (cz + a) m) xs s)
          (keyOf_xz (cx + dx) (cz + a))"
    by (rule fold_establish [where P = "\<lambda>dx s. covered s (keyOf_xz (cx + dx) (cz + a))",
          OF _ _ assms(1)])
      (simp_all add: loadChunkAt_covers loadChunkAt_covered_mono)
next
  fix a b s assume "covered s (keyOf_xz (cx + dx) (cz + a))"
  then show "covered (fold (\<lambda>dx m. loadChunkAt (cx + dx) (cz + b) m) xs s)
          (keyOf_xz (cx + dx) (cz + a))"
    by (rule fold_inv [rotated]) (simp add: loadChunkAt_covered_mono)
qed

lemma ensureChunksAround_covers:
  assumes "dx \<in> set [- VIEW_RADIUS..VIEW_RADIUS]" "dz \<in> set [- VIEW_RADIUS..VIEW_RADIUS]"
  shows "covered (ensureChunksAround cx cz m) (keyOf_xz (cx + dx) (cz + dz))"
proof -
  let ?m1 = "fold (\<lambda>dz m. fold (\<lambda>dx m. loadChunkAt (cx + dx) (cz + dz) m)
                      [- VIEW_RADIUS..VIEW_RADIUS] m) [- VIEW_RADIUS..VIEW_RADIUS] m"
  have c: "covered ?m1 (keyOf_xz (cx + dx) (cz + dz))"
    by (rule loads_cover [OF assms])
  have near: "\<not> tooFar cx cz (keyOf_xz (cx + dx) (cz + dz))"
    using assms by (auto simp: tooFar_keyOf_xz abs_if)
  have "map_of (loaded (ensureChunksAround cx cz m)) (keyOf_xz (cx + dx) (cz + dz))
        = map_of (loaded ?m1) (keyOf_xz (cx + dx) (cz + dz))"
    using near loads_fields [of cx cz "[- VIEW_RADIUS..VIEW_RADIUS]" "[- VIEW_RADIUS..VIEW_RADIUS]" m]
    by (simp add: ensureChunksAround_loaded)
  moreover have "inflight (ensureChunksAround cx cz m) = inflight ?m1"
    and "disposed (ensureChunksAround cx cz m) = disposed ?m1"
    by (simp_all add: ensureChunksAround_def Let_def)
  ultimately show ?thesis using c by (simp add: covered_def)
qed

lemma ensureChunksAround_twice:
  "fetches (ensureChunksAround cx cz (ensureChunksAround cx cz m))
   = fetches (ensureChunksAround cx cz m)"
proof -
  let ?m2 = "ensureChunksAround cx cz m"
  have "fold (\<lambda>dz m. fold (\<lambda>dx m. loadChunkAt (cx + dx) (cz + dz) m)
                      [- VIEW_RADIUS..VIEW_RADIUS] m) [- VIEW_RADIUS..VIEW_RADIUS] ?m2 = ?m2"
    by (intro fold_inv [where I = "\<lambda>s. s = ?m2"])
      (simp_all add: loadChunkAt_covered_id ensureChunksAround_covers)
  then have "ensureChunksAround cx cz ?m2 = fold (evictEntry cx cz) (loaded ?m2) ?m2"
    by (simp add: ensureChunksAround_def [of cx cz ?m2] Let_def)
  then show ?thesis by simp
qed


section \<open>The noise table and the carving phases\<close>

lemma length_swap [simp]: "length (swap p i j) = length p"
  by (simp add: swap_def Let_def)

lemma length_shuffle [simp]: "length (shuffle seed n p) = length p"
  by (induction n arbitrary: p) simp_all

lemma length_permTable: "length (permTable seed) = 512"
proof -
  have a: "length (fold (\<lambda>i p. wr p (int i) (u8_of (int i))) xs p) = length p" for xs p
    by (induction xs arbitrary: p) simp_all
  have b: "length (fold (\<lambda>i p. wr p (int i + 256) (u8_of_undefined (rd p (int i)))) xs p)
           = length p" for xs p
    by (induction xs arbitrary: p) simp_all
  show ?thesis by (simp add: permTable_def Let_def a b)
qed

lemma tbl_bounds: "0 \<le> tbl p i \<and> tbl p i \<le> 255"
proof -
  have "uint (p ! nat i) < 2 ^ 8"
    using uint_bounded [of "p ! nat i"] by simp
  then show ?thesis by (simp add: tbl_def)
qed

lemma cell_bounds: "0 \<le> (n :: int) AND 255 \<and> n AND 255 \<le> 255"
  by (simp add: AND_upper2)

lemma noise_lattice: "noise p (of_int a) (of_int b) 0 = 1 / 2"
  by (simp add: noise_def Let_def fade_def lerp_def grad_def)

lemma noise_lattice':
  "noise p ((of_int a + of_int b) * 1) ((of_int c + of_int d) * 1) 0 = 1 / 2"
  using noise_lattice [of p "a + b" "c + d"] by (simp only: of_int_add mult_1_right)

lemma carveAbove_one:
  "carveAbove S x z maxY (maxY + 1) g = wr g (IDX S x (maxY + 1) z) (u8_of (Block_id Air))"
  by (subst carveAbove.simps, subst carveAbove.simps) simp

lemma surface_keeps_voxel:
  "rd (surfaceStage caveRequest tb) (IDX 4 3 2 2) = Some (u8_of (Block_id Stone))"
proof -
  let ?I = "\<lambda>g. rd g (IDX 4 3 2 2) = Some (u8_of (Block_id Stone))"
  let ?col = "\<lambda>x z g.
        let h = noise tb ((of_int x + of_int (501081 * 4)) * 1)
                  ((of_int z + of_int (- 507684 * 4)) * 1) 0;
            maxY = \<lfloor>h * of_nat 4\<rfloor>
        in carveAbove (int 4) x z maxY (int 4 - 1) g"
  have col: "?col (int x) (int z) g = wr g (IDX 4 (int x) 3 (int z)) (u8_of (Block_id Air))"
    for x z :: nat and g
  proof -
    have "?col (int x) (int z) g
          = carveAbove (int 4) (int x) (int z) \<lfloor>(1 / 2 :: rat) * of_nat 4\<rfloor> (int 4 - 1) g"
      by (simp only: Let_def noise_lattice')
    also have "\<dots> = carveAbove 4 (int x) (int z) 2 (2 + 1) g"
      by simp
    also have "\<dots> = wr g (IDX 4 (int x) (2 + 1) (int z)) (u8_of (Block_id Air))"
      by (rule carveAbove_one)
    finally show ?thesis by simp
  qed
  have step: "?I (?col (int x) (int z) g)" if "x < 4" "z < 4" "?I g" for x z :: nat and g
  proof -
    have "IDX 4 (int x) 3 (int z) \<noteq> IDX 4 3 2 2"
      using that(1,2) by (simp add: IDX_def) presburger
    then have "rd (wr g (IDX 4 (int x) 3 (int z)) (u8_of (Block_id Air))) (IDX 4 3 2 2)
               = rd g (IDX 4 3 2 2)"
      by (rule rd_wr_other)
    with that(3) show ?thesis by (simp only: col)
  qed
  have init: "?I (replicate (4 * 4 * 4) (u8_of (Block_id Stone)))"
    by (simp add: rd_replicate IDX_def)
  have "?I (forXZ 4 ?col (replicate (4 * 4 * 4) (u8_of (Block_id Stone))))"
    unfolding forXZ_def
    by (rule fold_inv [where I = ?I], rule fold_inv [where I = ?I])
      (use step init in auto)
  then show ?thesis
    by (simp add: surfaceStage_def surfacePhase_def caveRequest_def Let_def)
qed

lemma caveVoxel_length [simp]:
  "length (caveVoxel S ox oy oz scale thr tb x y z g) = length g"
  by (simp add: caveVoxel_def Let_def)

lemma caveVoxel_keeps_air:
  "rd g i = Some (u8_of (Block_id Air))
   \<Longrightarrow> rd (caveVoxel S ox oy oz scale thr tb x y z g) i = Some (u8_of (Block_id Air))"
  by (simp add: caveVoxel_def Let_def rd_wr)

lemma caveVoxel_carves:
  assumes "noise tb ((of_int x + of_int ox) * scale) ((of_int y + of_int oy) * scale)
             ((of_int z + of_int oz) * scale) > thr"
    and "0 \<le> IDX (int S) x y z" "IDX (int S) x y z < int (length g)"
  shows "rd (caveVoxel S ox oy oz scale thr tb x y z g) (IDX (int S) x y z)
         = Some (u8_of (Block_id Air))"
  using assms by (simp add: caveVoxel_def Let_def rd_wr)

lemma cavesPhase_carves:
  fixes S x y z :: nat
  assumes x: "x < S" and y: "y < S" and z: "z < S"
    and n: "noise tb ((of_int (int x) + of_int ox) * scale) ((of_int (int y) + of_int oy) * scale)
             ((of_int (int z) + of_int oz) * scale) > thr"
    and len: "IDX (int S) (int x) (int y) (int z) < int (length g)"
  shows "rd (cavesPhase S ox oy oz scale thr tb g) (IDX (int S) (int x) (int y) (int z))
         = Some (u8_of (Block_id Air))"
proof -
  let ?i = "IDX (int S) (int x) (int y) (int z)"
  let ?L = "\<lambda>s :: u8 list. length s = length g"
  let ?A = "\<lambda>s. rd s ?i = Some (u8_of (Block_id Air))"
  let ?v = "\<lambda>x y z s. caveVoxel S ox oy oz scale thr tb (int x) (int y) (int z) s"
  let ?fz = "\<lambda>x y s. fold (\<lambda>z s. ?v x y z s) [0..<S] s"
  let ?fy = "\<lambda>x s. fold (\<lambda>y s. ?fz x y s) [0..<S] s"
  have i0: "0 \<le> ?i" by (simp add: IDX_def)
  have Lz: "?L (?fz a b s)" if "?L s" for a b s
    by (rule fold_inv [where I = ?L]) (use that in simp_all)
  have Az: "?A (?fz a b s)" if "?A s" for a b s
    by (rule fold_inv [where I = ?A]) (use that in \<open>simp_all add: caveVoxel_keeps_air\<close>)
  have Ly: "?L (?fy a s)" if "?L s" for a s
    by (rule fold_inv [where I = ?L]) (use that Lz in simp_all)
  have Ay: "?A (?fy a s)" if "?A s" for a s
    by (rule fold_inv [where I = ?A]) (use that Az in simp_all)
  have hitz: "?A (?fz x y s)" if "?L s" for s
  proof (rule fold_hit [where a = z and Pre = ?L and Post = ?A])
    fix s' assume "?L s'"
    then show "?A (?v x y z s')"
      using caveVoxel_carves [OF n i0, of s'] len by simp
  qed (use z that in \<open>simp_all add: caveVoxel_keeps_air\<close>)
  have hity: "?A (?fy x s)" if "?L s" for s
    by (rule fold_hit [where a = y and Pre = ?L and Post = ?A])
      (use y that Lz Az hitz in simp_all)
  have "?A (fold (\<lambda>x s. ?fy x s) [0..<S] g)"
    by (rule fold_hit [where a = x and Pre = ?L and Post = ?A])
      (use x Ly Ay hity in simp_all)
  then show ?thesis by (simp add: cavesPhase_def)
qed

lemma caveRequest_seed: "noiseSeed2 caveRequest = 65519591 / 134217728"
  by (simp add: noiseSeed2_def caveRequest_def hash32_def mix_def mix_step_def
      ToUint32_def toUnitFloat_def Let_def)

lemma nth_opt_eq: "nth_opt xs n = (if n < length xs then Some (xs ! n) else None)"
  by (induction xs n rule: nth_opt.induct) auto

lemma rd_code [code]: "rd a i = (if 0 \<le> i then nth_opt a (nat i) else None)"
  by (auto simp: rd_def nth_opt_eq)

lemma wr_code [code]: "wr a i v = (if 0 \<le> i then a[nat i := v] else a)"
  by (cases "nat i < length a") (auto simp: wr_def list_update_beyond)

lemma cave_noise_value:
  "noise (permTable (65519591 / 134217728)) (2004327 / 4) (1 / 2) (- 1015367 / 2)
   = 16543 / 16384"
  by code_simp

lemma rd_Some_in_range: "rd g i = Some v \<Longrightarrow> 0 \<le> i \<and> i < int (length g)"
  by (simp add: rd_def split: if_splits)

lemma caveRequest_sample:
  "noise (permTable (noiseSeed2 caveRequest))
     ((of_int 3 + of_int (cx_p caveRequest * int (size_p caveRequest))) * cavesScale_p caveRequest)
     ((of_int 2 + of_int (cy_p caveRequest * int (size_p caveRequest))) * cavesScale_p caveRequest)
     ((of_int 2 + of_int (cz_p caveRequest * int (size_p caveRequest))) * cavesScale_p caveRequest)
   = 16543 / 16384"
proof -
  have "(of_int 3 + of_int (cx_p caveRequest * int (size_p caveRequest))) * cavesScale_p caveRequest
        = 2004327 / 4"
    and "(of_int 2 + of_int (cy_p caveRequest * int (size_p caveRequest))) * cavesScale_p caveRequest
        = 1 / 2"
    and "(of_int 2 + of_int (cz_p caveRequest * int (size_p caveRequest))) * cavesScale_p caveRequest
        = - 1015367 / 2"
    by (simp_all add: caveRequest_def)
  then show ?thesis by (simp only: caveRequest_seed cave_noise_value)
qed


section \<open>C2: the order of the inputs of mix\<close>

text \<open>
  C2 claims that the order of the inputs of \<open>mix\<close> matters: that some list of inputs
  and some permutation of it are mixed to different results. The loop accumulates the
  finalized inputs by exclusive or from a constant start value, and no position enters
  the computation, so the claim fails: no list has a permutation with a different
  result.
\<close>

theorem mix_order_matters_counterexample:
  "\<not> (\<exists>xs ys. mset xs = mset ys \<and> mix xs \<noteq> mix ys)"
proof
  assume "\<exists>xs ys. mset xs = mset ys \<and> mix xs \<noteq> mix ys"
  then obtain xs ys where "mset xs = mset ys" and "mix xs \<noteq> mix ys" by blast
  then show False using mix_loop_mset [of xs ys] by (simp add: mix_def)
qed

text \<open>
  C2, amended: \<open>mix\<close> is invariant under every reordering of its inputs; two lists
  with the same elements (counted with multiplicity) are mixed to the same result.
\<close>

theorem mix_order_irrelevant: "mset xs = mset ys \<Longrightarrow> mix xs = mix ys"
  unfolding mix_def by (rule mix_loop_mset)

theorem mix_order_irrelevant_witness:
  "mset [1, 2, 3 :: int] = mset [3, 1, 2] \<and> mix [1, 2, 3] = mix [3, 1, 2]"
proof -
  have h: "mset [1, 2, 3 :: int] = mset [3, 1, 2]" by simp
  from mix_order_irrelevant [OF h] h show ?thesis by (rule conjI [rotated])
qed

section \<open>C1: the server generator is deterministic\<close>

text \<open>
  C1: two calls of \<open>generateChunkServer\<close> with equal parameters yield identical voxel
  buffers, whatever the state of the ambient random source at either call, and the
  generator leaves that state untouched: the result is a function of the parameters
  alone.
\<close>

theorem generateChunkServer_deterministic:
  "fst (generateChunkServer p r1) = fst (generateChunkServer p r2)
   \<and> snd (generateChunkServer p r1) = r1"
  unfolding generateChunkServer_def makeNoise_Some Let_def by simp

section \<open>C5: grass, then dirt, on a column of the base block\<close>

text \<open>
  C5 claims that on every column whose voxels all equal the base block (height at least
  5), the grass pass with depth 2 followed by the dirt pass with depth 3 leaves the top
  two voxels Grass and the next three Dirt. Both passes match voxels against the base
  block, so the claim fails when the base block is Grass itself: the dirt pass then
  repaints the grass. In a chunk of size 5 filled with Grass, the column at \<open>(0, 0)\<close>
  ends with Dirt in its top three voxels and no voxel changed below them.
  (Columns are listed from \<open>y = 0\<close> upwards.)
\<close>

theorem paint_base_grass_counterexample:
  "column 5 (replicate 125 (u8_of (Block_id Grass))) 0 0 = replicate 5 (Some 1)
   \<and> column 5 (paintPhase 5 (Block_id Grass) 2 3 (replicate 125 (u8_of (Block_id Grass)))) 0 0
       = [Some 1, Some 1, Some 2, Some 2, Some 2]
   \<and> column 5 (paintPhase 5 (Block_id Grass) 2 3 (replicate 125 (u8_of (Block_id Grass)))) 0 0
       \<noteq> replicate 0 (Some 1) @ replicate 3 (Some 2) @ replicate 2 (Some 1)"
  by code_simp

text \<open>
  C5, amended: for every column \<open>(x, z)\<close> of a chunk of size at least 5 whose voxels
  all equal the base block, where the base block is neither Air nor Grass, the grass pass
  with depth 2 followed by the dirt pass with depth 3 leaves the top two voxels Grass,
  the next three Dirt, and the remaining voxels below them unchanged, whatever the other
  columns hold.
\<close>

theorem paint_grass_then_dirt:
  fixes S x z :: nat
  assumes "5 \<le> S" and "x < S" and "z < S"
    and "column S grid (int x) (int z) = replicate S (Some b)"
    and "uint b \<noteq> Block_id Air" and "uint b \<noteq> Block_id Grass"
  shows "column S (paintPhase S (uint b) 2 3 grid) (int x) (int z)
         = replicate (S - 5) (Some b) @ replicate 3 (Some (u8_of (Block_id Dirt)))
           @ replicate 2 (Some (u8_of (Block_id Grass)))"
proof (rule nth_equalityI)
  show "length (column S (paintPhase S (uint b) 2 3 grid) (int x) (int z))
        = length (replicate (S - 5) (Some b) @ replicate 3 (Some (u8_of (Block_id Dirt)))
           @ replicate 2 (Some (u8_of (Block_id Grass))))"
    using assms(1) by simp
next
  fix y assume "y < length (column S (paintPhase S (uint b) 2 3 grid) (int x) (int z))"
  then have y: "y < S" by simp
  have "column S (paintPhase S (uint b) 2 3 grid) (int x) (int z) ! y
        = (if int S - 2 \<le> int y then Some 1 else if int S - 5 \<le> int y then Some 2 else Some b)"
    using paint_column [OF assms(1-4), of "int y"] assms(5,6) y by (simp add: column_nth)
  also have "\<dots> = (replicate (S - 5) (Some b) @ replicate 3 (Some (u8_of (Block_id Dirt)))
           @ replicate 2 (Some (u8_of (Block_id Grass)))) ! y"
    using y assms(1) by (auto simp: nth_append u8_of_def)
  finally show "column S (paintPhase S (uint b) 2 3 grid) (int x) (int z) ! y
        = (replicate (S - 5) (Some b) @ replicate 3 (Some (u8_of (Block_id Dirt)))
           @ replicate 2 (Some (u8_of (Block_id Grass)))) ! y" .
qed


theorem paint_grass_then_dirt_witness:
  "(5 :: nat) \<le> 5 \<and> (0 :: nat) < 5
   \<and> column 5 (replicate 125 3) (int 0) (int 0) = replicate 5 (Some 3)
   \<and> uint (3 :: u8) \<noteq> Block_id Air \<and> uint (3 :: u8) \<noteq> Block_id Grass
   \<and> column 5 (paintPhase 5 (uint (3 :: u8)) 2 3 (replicate 125 3)) (int 0) (int 0)
       = replicate (5 - 5) (Some 3) @ replicate 3 (Some (u8_of (Block_id Dirt)))
         @ replicate 2 (Some (u8_of (Block_id Grass)))"
proof -
  have c: "column 5 (replicate 125 3) (int 0) (int 0) = replicate 5 (Some 3)"
    by code_simp
  have a: "uint (3 :: u8) \<noteq> Block_id Air" and g: "uint (3 :: u8) \<noteq> Block_id Grass"
    by simp_all
  from paint_grass_then_dirt [of 5 0 0 "replicate 125 3" 3, OF _ _ _ c a g] c a g
  show ?thesis by simp
qed

section \<open>C10: the local fallback is not deterministic\<close>

text \<open>
  C10: the chunk generated locally on the failure path is not a function of the world
  seed and the coordinate (neither enters \<open>localFallback\<close>, which applies no carving
  phase either): its dirt depth is drawn from the random source, and two executions can
  produce different voxel buffers. With a draw of 0 the depth is 1, with a draw of 1/2
  it is 3, and the voxel at \<open>(0, 12, 0)\<close> is Stone in the first buffer and Dirt in
  the second.
\<close>

theorem localFallback_not_deterministic:
  "fst (localFallback (\<lambda>n. 0)) \<noteq> fst (localFallback (\<lambda>n. 1 / 2))"
proof
  assume "fst (localFallback (\<lambda>n. 0)) = fst (localFallback (\<lambda>n. 1 / 2))"
  then have "rd (fst (localFallback (\<lambda>n. 0))) (IDX 16 0 12 0)
             = rd (fst (localFallback (\<lambda>n. 1 / 2))) (IDX 16 0 12 0)" by simp
  then show False by (simp only: localFallback_voxel) simp
qed

section \<open>C4: the cache key distinguishes a difference in one field\<close>

text \<open>
  C4: two parameter values that differ in exactly one field have different keys, also
  when the seed strings themselves contain the delimiter. The number-to-string conversion
  is the language's; what the key needs of it is that it maps different numbers to
  different strings.
\<close>

theorem keyOf_one_field:
  assumes "inj str" and "differing_fields p q = 1"
  shows "keyOf str p \<noteq> keyOf str q"
  using one_field_cases [OF assms(2)] assms(1)
  by (elim disjE conjE) (simp_all add: keyOf_def inj_eq)

theorem keyOf_one_field_witness:
  "inj show_fraction
   \<and> differing_fields
        \<lparr>size_p = 16, seed_p = ''a|b'', base_p = 3, cx_p = 1, cy_p = 0, cz_p = - 2,
         surfaceScale_p = 1 / 25, cavesScale_p = 4 / 25, cavesThreshold_p = 18 / 25,
         grassDepth_p = 2, dirtDepth_p = 3\<rparr>
        \<lparr>size_p = 16, seed_p = ''a'', base_p = 3, cx_p = 1, cy_p = 0, cz_p = - 2,
         surfaceScale_p = 1 / 25, cavesScale_p = 4 / 25, cavesThreshold_p = 18 / 25,
         grassDepth_p = 2, dirtDepth_p = 3\<rparr> = 1
   \<and> keyOf show_fraction
        \<lparr>size_p = 16, seed_p = ''a|b'', base_p = 3, cx_p = 1, cy_p = 0, cz_p = - 2,
         surfaceScale_p = 1 / 25, cavesScale_p = 4 / 25, cavesThreshold_p = 18 / 25,
         grassDepth_p = 2, dirtDepth_p = 3\<rparr>
       \<noteq> keyOf show_fraction
        \<lparr>size_p = 16, seed_p = ''a'', base_p = 3, cx_p = 1, cy_p = 0, cz_p = - 2,
         surfaceScale_p = 1 / 25, cavesScale_p = 4 / 25, cavesThreshold_p = 18 / 25,
         grassDepth_p = 2, dirtDepth_p = 3\<rparr>"
proof -
  let ?p = "\<lparr>size_p = 16, seed_p = ''a|b'', base_p = 3, cx_p = 1, cy_p = 0, cz_p = - 2,
         surfaceScale_p = 1 / 25, cavesScale_p = 4 / 25, cavesThreshold_p = 18 / 25,
         grassDepth_p = 2, dirtDepth_p = 3\<rparr>"
  let ?q = "\<lparr>size_p = 16, seed_p = ''a'', base_p = 3, cx_p = 1, cy_p = 0, cz_p = - 2,
         surfaceScale_p = 1 / 25, cavesScale_p = 4 / 25, cavesThreshold_p = 18 / 25,
         grassDepth_p = 2, dirtDepth_p = 3\<rparr>"
  have d: "differing_fields ?p ?q = 1"
    by (simp add: differing_fields_def)
  from keyOf_one_field [OF show_fraction_inj d] show_fraction_inj d
  show ?thesis by (intro conjI)
qed

section \<open>C6: a failed fetch still makes the coordinate resident\<close>

text \<open>
  C6: when the suspended load of coordinate \<open>(cx, cz)\<close> is resumed with a failed fetch
  (a rejection, or a response that is not ok) and the manager is not disposed, then on
  completion the coordinate is resident, with the chunk generated locally and placed at
  the coordinate's position, and it is no longer inflight.
\<close>

theorem fallback_makes_resident:
  assumes "\<not> disposed m" and "i < length (suspended m)"
    and "suspended m ! i = Task (keyOf_xz cx cz) cx cz AwaitFetch"
    and "res = Rejected \<or> res = Response False"
  shows "map_of (loaded (resumeFetch i res m)) (keyOf_xz cx cz)
         = Some ((buildInstancedChunk (fst (localFallback (rnd m))) CHUNK)
                   \<lparr>position := (cx * int CHUNK, 0, cz * int CHUNK)\<rparr>)
       \<and> keyOf_xz cx cz \<notin> inflight (resumeFetch i res m)"
  using assms
  by (auto simp: resumeFetch_def catchBranch_def admit_def Let_def split_def update_conv')

theorem fallback_makes_resident_witness:
  "\<not> disposed (loadChunkAt 5 5 (initial (\<lambda>n. 0)))
   \<and> 0 < length (suspended (loadChunkAt 5 5 (initial (\<lambda>n. 0))))
   \<and> suspended (loadChunkAt 5 5 (initial (\<lambda>n. 0))) ! 0 = Task (keyOf_xz 5 5) 5 5 AwaitFetch
   \<and> map_of (loaded (resumeFetch 0 Rejected (loadChunkAt 5 5 (initial (\<lambda>n. 0))))) (keyOf_xz 5 5)
       = Some ((buildInstancedChunk (fst (localFallback (rnd (loadChunkAt 5 5 (initial (\<lambda>n. 0))))))
                  CHUNK)\<lparr>position := (5 * int CHUNK, 0, 5 * int CHUNK)\<rparr>)
   \<and> keyOf_xz 5 5 \<notin> inflight (resumeFetch 0 Rejected (loadChunkAt 5 5 (initial (\<lambda>n. 0))))"
proof -
  let ?m = "loadChunkAt 5 5 (initial (\<lambda>n. 0))"
  have a: "\<not> disposed ?m" and b: "0 < length (suspended ?m)"
    and c: "suspended ?m ! 0 = Task (keyOf_xz 5 5) 5 5 AwaitFetch"
    by (simp_all add: loadChunkAt_def initial_def Let_def)
  from fallback_makes_resident [OF a b c, of Rejected] a b c
  show ?thesis by simp
qed


section \<open>C7: eviction keeps distance \<open>viewRadius + 1\<close> and drops what is farther\<close>

text \<open>
  C7: after a pass of \<open>ensureChunksAround\<close> around \<open>(cx, cz)\<close>, a chunk that was
  resident stays resident when its Chebyshev distance from the centre is at most
  \<open>VIEW_RADIUS + 1\<close> (in particular at exactly that distance) and is removed from the
  resident map when the distance is \<open>VIEW_RADIUS + 2\<close> or more. The pass hands each
  evicted group to \<open>disposeObject\<close> with its default options, under which no geometry
  and no material is disposed: the log of \<^verbatim>\<open>dispose()\<close> calls is the same after the pass
  as before it.
\<close>

theorem eviction_hysteresis_without_release:
  assumes "map_of (loaded m) (keyOf_xz gx gz) = Some g"
  shows "map_of (loaded (ensureChunksAround cx cz m)) (keyOf_xz gx gz)
         = (if max \<bar>gx - cx\<bar> \<bar>gz - cz\<bar> \<le> VIEW_RADIUS + 1 then Some g else None)
       \<and> disposals (ensureChunksAround cx cz m) = disposals m"
  using assms
  by (auto simp: ensureChunksAround_loaded tooFar_keyOf_xz ensureChunksAround_disposals)

theorem eviction_hysteresis_without_release_witness:
  "map_of (loaded ((initial (\<lambda>n. 0))\<lparr>loaded := [(keyOf_xz 7 0, buildInstancedChunk [] CHUNK),
        (keyOf_xz 0 (- 8), buildInstancedChunk [] CHUNK)]\<rparr>)) (keyOf_xz 0 (- 8))
     = Some (buildInstancedChunk [] CHUNK)
   \<and> map_of (loaded (ensureChunksAround 0 0 ((initial (\<lambda>n. 0))\<lparr>loaded :=
        [(keyOf_xz 7 0, buildInstancedChunk [] CHUNK),
         (keyOf_xz 0 (- 8), buildInstancedChunk [] CHUNK)]\<rparr>))) (keyOf_xz 0 (- 8))
     = (if max \<bar>0 - 0\<bar> \<bar>- 8 - 0\<bar> \<le> VIEW_RADIUS + 1 then Some (buildInstancedChunk [] CHUNK)
        else None)
   \<and> disposals (ensureChunksAround 0 0 ((initial (\<lambda>n. 0))\<lparr>loaded :=
        [(keyOf_xz 7 0, buildInstancedChunk [] CHUNK),
         (keyOf_xz 0 (- 8), buildInstancedChunk [] CHUNK)]\<rparr>))
     = disposals ((initial (\<lambda>n. 0))\<lparr>loaded := [(keyOf_xz 7 0, buildInstancedChunk [] CHUNK),
        (keyOf_xz 0 (- 8), buildInstancedChunk [] CHUNK)]\<rparr>)"
proof -
  let ?m = "(initial (\<lambda>n. 0))\<lparr>loaded := [(keyOf_xz 7 0, buildInstancedChunk [] CHUNK),
        (keyOf_xz 0 (- 8), buildInstancedChunk [] CHUNK)]\<rparr>"
  have "keyOf_xz 7 0 \<noteq> keyOf_xz 0 (- 8)"
    using keyOf_xz_inj [of 7 0 0 "- 8"] by auto
  then have h: "map_of (loaded ?m) (keyOf_xz 0 (- 8)) = Some (buildInstancedChunk [] CHUNK)"
    by simp
  from eviction_hysteresis_without_release [OF h, of 0 0] h
  show ?thesis by blast
qed

section \<open>C8: no coordinate is requested twice\<close>

text \<open>
  C8: whatever sequence of events a manager has gone through since it was created
  (passes of \<open>ensureChunksAround\<close>, resumptions of suspended loads with any outcome,
  unmounting), no coordinate has more than one suspended load; a second pass of
  \<open>ensureChunksAround\<close> around the same centre, right after the first, issues no fetch;
  and \<open>loadChunkAt\<close> for a coordinate that is resident or inflight changes nothing.
\<close>

theorem no_duplicate_loads:
  "length (filter (\<lambda>t. task_cx t = cx \<and> task_cz t = cz) (suspended (run evs (initial r)))) \<le> 1
   \<and> fetches (ensureChunksAround cx cz (ensureChunksAround cx cz m))
       = fetches (ensureChunksAround cx cz m)
   \<and> (map_of (loaded m) (keyOf_xz cx cz) \<noteq> None \<or> keyOf_xz cx cz \<in> inflight m
        \<longrightarrow> loadChunkAt cx cz m = m)"
  using one_load_per_coordinate [OF bookkeeping_run [OF bookkeeping_initial]]
    ensureChunksAround_twice
  by (auto simp: loadChunkAt_def)

theorem no_duplicate_loads_witness:
  "keyOf_xz 0 0 \<in> inflight (loadChunkAt 0 0 (initial (\<lambda>n. 0)))
   \<and> length (filter (\<lambda>t. task_cx t = 0 \<and> task_cz t = 0)
        (suspended (run [EnsureAround 0 0, EnsureAround 0 0] (initial (\<lambda>n. 0))))) \<le> 1
   \<and> fetches (ensureChunksAround 0 0 (ensureChunksAround 0 0 (loadChunkAt 0 0 (initial (\<lambda>n. 0)))))
       = fetches (ensureChunksAround 0 0 (loadChunkAt 0 0 (initial (\<lambda>n. 0))))
   \<and> loadChunkAt 0 0 (loadChunkAt 0 0 (initial (\<lambda>n. 0))) = loadChunkAt 0 0 (initial (\<lambda>n. 0))"
proof -
  have h: "keyOf_xz 0 0 \<in> inflight (loadChunkAt 0 0 (initial (\<lambda>n. 0)))"
    by (simp add: loadChunkAt_def initial_def Let_def)
  from no_duplicate_loads [of 0 0 "[EnsureAround 0 0, EnsureAround 0 0]" "\<lambda>n. 0"
      "loadChunkAt 0 0 (initial (\<lambda>n. 0))"] h
  show ?thesis by blast
qed

section \<open>C9: a disposed manager neither loads nor admits\<close>

text \<open>
  C9: once the manager is disposed, \<open>loadChunkAt\<close> does nothing (no fetch, no change
  of state), the completion of a suspended load, whatever its outcome, leaves the
  resident map as it is, and the manager stays disposed under every event.
\<close>

theorem disposed_manager_is_inert:
  assumes "disposed m"
  shows "loadChunkAt cx cz m = m
       \<and> loaded (resumeFetch i fr m) = loaded m
       \<and> loaded (resumeBody j br m) = loaded m
       \<and> disposed (step ev m)"
proof -
  have "disposed (step ev m)"
    using assms
    by (cases ev)
      (simp_all add: ensureChunksAround_disposed resumeFetch_disposed resumeBody_disposed
        cleanup_def Let_def)
  then show ?thesis
    using assms by (simp add: loadChunkAt_disposed resumeFetch_disposed resumeBody_disposed)
qed

theorem disposed_manager_is_inert_witness:
  "disposed (cleanup (loadChunkAt 5 5 (initial (\<lambda>n. 0))))
   \<and> loadChunkAt 5 5 (cleanup (loadChunkAt 5 5 (initial (\<lambda>n. 0))))
       = cleanup (loadChunkAt 5 5 (initial (\<lambda>n. 0)))
   \<and> loaded (resumeFetch 0 Rejected (cleanup (loadChunkAt 5 5 (initial (\<lambda>n. 0)))))
       = loaded (cleanup (loadChunkAt 5 5 (initial (\<lambda>n. 0))))
   \<and> loaded (resumeBody 0 (Body []) (cleanup (loadChunkAt 5 5 (initial (\<lambda>n. 0)))))
       = loaded (cleanup (loadChunkAt 5 5 (initial (\<lambda>n. 0))))
   \<and> disposed (step (EnsureAround 0 0) (cleanup (loadChunkAt 5 5 (initial (\<lambda>n. 0)))))"
proof -
  have d: "disposed (cleanup (loadChunkAt 5 5 (initial (\<lambda>n. 0))))"
    by (simp add: cleanup_def Let_def)
  from disposed_manager_is_inert [OF d, of 5 5 0 Rejected 0 "Body []" "EnsureAround 0 0"] d
  show ?thesis by simp
qed

section \<open>C3: the cave phase at threshold 1\<close>

text \<open>
  C3 claims that with a cave threshold of 1 the cave phase sets no voxel to Air, because
  a noise sample never exceeds 1. The carving test is strict, as the claim says, but the
  gradient noise overshoots the range its own documentation states: where two of the
  fractional offsets are 1/2 and the gradients at the corners of the cell point towards
  the sample, the interpolated value exceeds 1. For the request \<open>caveRequest\<close> the cave
  sample at voxel \<open>(3, 2, 2)\<close> is 16543/16384; that voxel is Stone after surface carving
  and Air after cave carving.
\<close>

theorem caves_carve_at_threshold_one:
  "cavesThreshold_p caveRequest = 1
   \<and> noise (permTable (noiseSeed2 caveRequest))
       ((of_int 3 + of_int (cx_p caveRequest * int (size_p caveRequest))) * cavesScale_p caveRequest)
       ((of_int 2 + of_int (cy_p caveRequest * int (size_p caveRequest))) * cavesScale_p caveRequest)
       ((of_int 2 + of_int (cz_p caveRequest * int (size_p caveRequest))) * cavesScale_p caveRequest)
     = 16543 / 16384
   \<and> rd (surfaceStage caveRequest (permTable (noiseSeed1 caveRequest))) (IDX 4 3 2 2)
     = Some (u8_of (Block_id Stone))
   \<and> rd (cavesStage caveRequest (permTable (noiseSeed2 caveRequest))
           (surfaceStage caveRequest (permTable (noiseSeed1 caveRequest)))) (IDX 4 3 2 2)
     = Some (u8_of (Block_id Air))"
proof -
  let ?g = "surfaceStage caveRequest (permTable (noiseSeed1 caveRequest))"
  let ?tb = "permTable (noiseSeed2 caveRequest)"
  have t: "cavesThreshold_p caveRequest = 1" by (simp add: caveRequest_def)
  have s: "rd ?g (IDX 4 3 2 2) = Some (u8_of (Block_id Stone))"
    by (rule surface_keeps_voxel)
  then have len: "IDX (int 4) (int 3) (int 2) (int 2) < int (length ?g)"
    using rd_Some_in_range [of ?g "IDX 4 3 2 2"] by simp
  have n: "noise ?tb ((of_int (int 3) + of_int (cx_p caveRequest * int (size_p caveRequest)))
                        * cavesScale_p caveRequest)
             ((of_int (int 2) + of_int (cy_p caveRequest * int (size_p caveRequest)))
                        * cavesScale_p caveRequest)
             ((of_int (int 2) + of_int (cz_p caveRequest * int (size_p caveRequest)))
                        * cavesScale_p caveRequest) > 1"
    using caveRequest_sample by simp
  have "rd (cavesPhase 4 (cx_p caveRequest * int (size_p caveRequest))
             (cy_p caveRequest * int (size_p caveRequest))
             (cz_p caveRequest * int (size_p caveRequest)) (cavesScale_p caveRequest) 1 ?tb ?g)
          (IDX (int 4) (int 3) (int 2) (int 2)) = Some (u8_of (Block_id Air))"
    by (rule cavesPhase_carves [OF _ _ _ n len]) simp_all
  then have c: "rd (cavesStage caveRequest ?tb ?g) (IDX 4 3 2 2) = Some (u8_of (Block_id Air))"
    by (simp add: cavesStage_def Let_def t) (simp add: caveRequest_def)
  from t caveRequest_sample s c show ?thesis by (intro conjI)
qed

end
